theory Spec2Isabelle
  imports
    Main
    "HOL-Library.Word"
    "HOL-Library.Signed_Division"
    "HOL-Library.Char_ord"
    "HOL-Library.List_Lexorder"
    "HOL-Library.AList"
begin

unbundle bit_operations_syntax

chapter \<open>gTorrent: bencode codec, metainfo, peer wire protocol, writeback, verifier\<close>

text \<open>
  A shallow embedding of the parts of the gTorrent sources that the specification's
  testable properties talk about: \<^verbatim>\<open>torrent/protocol.go\<close> (bitfields and message
  framing), \<^verbatim>\<open>bencode/bencode.go\<close> (the codec), \<^verbatim>\<open>torrent/torrent.go\<close> (metainfo
  parsing and the verifier) and \<^verbatim>\<open>download_manager.go\<close> (writeback and the piece
  bookkeeping of the worker pool).

  Conventions. A Go \<^verbatim>\<open>byte\<close> is an \<open>8 word\<close>, a \<^verbatim>\<open>uint32\<close> a \<open>32 word\<close>. A Go
  \<^verbatim>\<open>int\<close>/\<^verbatim>\<open>int64\<close> that only ever holds sizes, offsets and indices is an \<open>int\<close>
  (or a \<open>nat\<close> where the source cannot make it negative); Go's \<^verbatim>\<open>/\<close> and \<^verbatim>\<open>%\<close>
  truncate towards zero and are written \<open>sdiv\<close> and \<open>smod\<close>. A run-time panic of the
  source is a value of type \<open>go_panic\<close>.
\<close>

section \<open>Peer wire protocol (torrent/protocol.go)\<close>

type_synonym byte = "8 word"
type_synonym uint32 = "32 word"

datatype go_panic =
    SliceBoundsOutOfRange
  | IndexOutOfRange
  | NilDereference
  | TypeAssertion
  | DivideByZero
  | MakeNegativeLen

subsection \<open>Bitfield\<close>

text \<open>
  \<^verbatim>\<open>type Bitfield []byte\<close>. \<^verbatim>\<open>HasPiece\<close> and \<^verbatim>\<open>SetPiece\<close> take a Go \<^verbatim>\<open>int\<close>;
  \<^verbatim>\<open>index / 8\<close> and \<^verbatim>\<open>index % 8\<close> truncate towards zero, so the offset of a negative
  index is in \<open>-7..0\<close> and the shift count \<open>7 - offset\<close> is in \<open>0..14\<close>: it is never
  negative (a negative count would panic), and a count of 8 or more shifts every bit
  of a byte out, which \<open>drop_bit\<close> and \<open>push_bit\<close> on \<open>8 word\<close> do as well.
\<close>

type_synonym Bitfield = "byte list"

definition HasPiece :: "Bitfield \<Rightarrow> int \<Rightarrow> bool" where
  "HasPiece bf index =
     (let byteIndex = index sdiv 8;
          offset = index smod 8
      in if byteIndex < 0 \<or> byteIndex \<ge> int (length bf) then False
         else (drop_bit (nat (7 - offset)) (bf ! nat byteIndex)) AND 1 \<noteq> 0)"

definition SetPiece :: "Bitfield \<Rightarrow> int \<Rightarrow> Bitfield" where
  "SetPiece bf index =
     (let byteIndex = index sdiv 8;
          offset = index smod 8
      in if byteIndex < 0 \<or> byteIndex \<ge> int (length bf) then bf
         else bf[nat byteIndex := (bf ! nat byteIndex) OR push_bit (nat (7 - offset)) 1])"

subsection \<open>Message framing\<close>

text \<open>\<^verbatim>\<open>MessageType\<close> is a \<^verbatim>\<open>uint8\<close>; the constants the claims use are spelled out.\<close>

definition MsgHave :: byte where "MsgHave = 4"
definition MsgRequest :: byte where "MsgRequest = 6"
definition MsgKeepAlive :: byte where "MsgKeepAlive = 255"

record Message =
  Type :: byte
  Payload :: "byte list"

text \<open>\<^verbatim>\<open>binary.BigEndian.PutUint32\<close>: the four bytes of a \<^verbatim>\<open>uint32\<close>, most significant first.\<close>

definition PutUint32 :: "uint32 \<Rightarrow> byte list" where
  "PutUint32 v = [ucast (drop_bit 24 v), ucast (drop_bit 16 v), ucast (drop_bit 8 v), ucast v]"

text \<open>
  The builtin \<^verbatim>\<open>copy(dst[off:], src)\<close>: it copies \<open>min (len dst - off) (len src)\<close> bytes
  and leaves the rest of \<open>dst\<close> alone. Used only with \<open>off \<le> length dst\<close>.
\<close>

definition copy_at :: "'a list \<Rightarrow> nat \<Rightarrow> 'a list \<Rightarrow> 'a list" where
  "copy_at dst off src =
     (let n = min (length dst - off) (length src)
      in take off dst @ take n src @ drop (off + n) dst)"

text \<open>
  \<^verbatim>\<open>Message.Serialize\<close>. \<^verbatim>\<open>length\<close> and \<^verbatim>\<open>4+length\<close> are \<^verbatim>\<open>uint32\<close> and wrap around;
  a buffer shorter than five bytes makes \<^verbatim>\<open>buf[0:4]\<close> or \<^verbatim>\<open>buf[4]\<close> panic.
\<close>

definition Serialize :: "Message \<Rightarrow> go_panic + byte list" where
  "Serialize m =
     (if Type m = MsgKeepAlive then Inr (replicate 4 0)
      else
        let length32 = (word_of_nat (1 + length (Payload m)) :: uint32);
            buf = replicate (unat (4 + length32)) (0 :: byte)
        in if length buf < 4 then Inl SliceBoundsOutOfRange
           else
             let buf = copy_at buf 0 (PutUint32 length32)
             in if length buf \<le> 4 then Inl IndexOutOfRange
                else
                  let buf = buf[4 := Type m]
                  in Inr (copy_at buf 5 (Payload m)))"

text \<open>\<^verbatim>\<open>FormatRequest\<close>: a 12-byte payload, three big-endian \<^verbatim>\<open>uint32\<close>.\<close>

definition FormatRequest :: "uint32 \<Rightarrow> uint32 \<Rightarrow> uint32 \<Rightarrow> byte list" where
  "FormatRequest index begin len =
     (let payload = replicate 12 (0 :: byte);
          payload = copy_at payload 0 (PutUint32 index);
          payload = copy_at payload 4 (PutUint32 begin);
          payload = copy_at payload 8 (PutUint32 len)
      in payload)"


section \<open>Bencode codec (bencode/bencode.go)\<close>

text \<open>
  A Go \<^verbatim>\<open>[]byte\<close> or \<^verbatim>\<open>string\<close> of the codec is a \<open>string\<close> (a list of 8-bit
  characters). \<^verbatim>\<open>*Data\<close> is \<open>Data option\<close>, \<open>None\<close> being the nil pointer; the
  constructor says which \<^verbatim>\<open>Type\<close> tag \<^verbatim>\<open>SetValueAndType\<close> has stored with the value,
  \<open>INVALID\<close> being what \<^verbatim>\<open>NewData(nil)\<close> builds. A \<^verbatim>\<open>map[string]*Data\<close> is an
  association list: it denotes the map \<open>map_of\<close>, an assignment \<^verbatim>\<open>dict[key] = val\<close> is
  \<open>AList.update\<close>, and the keys of the map are the first components without
  repetition.
\<close>

datatype Data =
    STRING string
  | INTEGER int
  | LIST "Data option list"
  | DICT "(string \<times> Data option) list"
  | INVALID

fun is_STRING :: "Data \<Rightarrow> bool" where
  "is_STRING (STRING s) = True"
| "is_STRING _ = False"

text \<open>\<^verbatim>\<open>key.AsString()\<close> where the tag is known to be \<^verbatim>\<open>STRING\<close>.\<close>

fun STRING_value :: "Data \<Rightarrow> string" where
  "STRING_value (STRING s) = s"
| "STRING_value _ = []"

subsection \<open>Go's standard library: strconv.ParseInt, strconv.Atoi, fmt's \<^verbatim>\<open>%d\<close>\<close>

text \<open>
  Written from the documentation of the Go standard library. \<^verbatim>\<open>ParseInt(s, 10, 64)\<close>
  accepts an optional sign followed by one or more decimal digits and fails on the empty
  string, on any other character and on a value outside the \<^verbatim>\<open>int64\<close> range; leading
  zeros and \<^verbatim>\<open>-0\<close> are accepted. \<^verbatim>\<open>Atoi\<close> is \<^verbatim>\<open>ParseInt(s, 10, 0)\<close>, on a 64-bit
  platform the same function. \<open>None\<close> stands for a non-nil error.
\<close>

definition is_digit :: "char \<Rightarrow> bool" where
  "is_digit c = (CHR ''0'' \<le> c \<and> c \<le> CHR ''9'')"

definition digit_val :: "char \<Rightarrow> int" where
  "digit_val c = of_char c - of_char CHR ''0''"

fun parse_digits :: "int \<Rightarrow> string \<Rightarrow> int option" where
  "parse_digits n [] = Some n"
| "parse_digits n (c # cs) =
     (if is_digit c then parse_digits (n * 10 + digit_val c) cs else None)"

definition ParseInt :: "string \<Rightarrow> int option" where
  "ParseInt s =
     (if s = [] then None
      else
        let neg = (hd s = CHR ''-'');
            s' = (if hd s = CHR ''+'' \<or> hd s = CHR ''-'' then tl s else s)
        in if s' = [] then None
           else case parse_digits 0 s' of
                  None \<Rightarrow> None
                | Some un \<Rightarrow>
                    if \<not> neg \<and> un \<ge> 2 ^ 63 then None
                    else if neg \<and> un > 2 ^ 63 then None
                    else Some (if neg then - un else un))"

definition Atoi :: "string \<Rightarrow> int option" where
  "Atoi s = ParseInt s"

text \<open>\<^verbatim>\<open>fmt.Sprintf("%d", v)\<close>: the shortest decimal numeral, with \<^verbatim>\<open>-\<close> for a negative value.\<close>

definition digit_char :: "int \<Rightarrow> char" where
  "digit_char d = char_of (of_char CHR ''0'' + d)"

function dec_digits :: "int \<Rightarrow> string" where
  "dec_digits n =
     (if n < 10 then [digit_char n] else dec_digits (n div 10) @ [digit_char (n mod 10)])"
  by pat_completeness auto
termination
  by (relation "measure nat") auto

declare dec_digits.simps [simp del]

definition Sprintf_d :: "int \<Rightarrow> string" where
  "Sprintf_d v = (if v < 0 then CHR ''-'' # dec_digits (- v) else dec_digits v)"

subsection \<open>Decode\<close>

text \<open>
  \<^verbatim>\<open>Decode\<close> returns \<^verbatim>\<open>(*Data, int, error)\<close>. The error is one of six messages, \<open>None\<close>
  being nil. A Go slice has a length and a capacity: \<open>content\<close> is the bytes of the
  slice up to its length, and \<open>spare\<close> is what the backing array holds from the
  length to the capacity (\<^verbatim>\<open>cap(content) = len(content) + len(spare)\<close>; a slice
  returned by \<^verbatim>\<open>os.ReadFile\<close> has spare bytes). \<^verbatim>\<open>content[i:]\<close> ends where \<open>content\<close>
  ends, so it has the same spare bytes. An index is checked against the length, the
  upper bound of a slice expression against the capacity: a string whose length
  prefix runs past the end of the input takes the missing bytes from the spare ones,
  and panics in \<^verbatim>\<open>content[i+1 : i+1+strLen]\<close> only past the capacity; a negative
  length panics too. The loop indices and the counts are never negative and are
  natural numbers here; \<open>i + count - 1 + 1\<close> is \<^verbatim>\<open>i += count - 1\<close> followed by the
  loop's \<^verbatim>\<open>i++\<close> (\<open>i\<close> is at least 1 there).
\<close>

datatype decode_error =
    InvalidInteger
  | InvalidList
  | InvalidDictionary
  | InvalidDictionaryKey
  | InvalidStringLength
  | InvalidString

type_synonym decode_result = "go_panic + (Data option \<times> nat \<times> decode_error option)"

text \<open>The \<^verbatim>\<open>'i'\<close> case: the loop from \<open>i = 1\<close> to the first \<^verbatim>\<open>'e'\<close>.\<close>

function Decode_int :: "string \<Rightarrow> nat \<Rightarrow> decode_result" where
  "Decode_int content i =
     (if i < length content then
        if content ! i = CHR ''e'' then
          (case ParseInt (take (i - 1) (drop 1 content)) of
             None \<Rightarrow> Inr (None, i + 1, None)
           | Some fVal \<Rightarrow> Inr (Some (INTEGER fVal), i + 1, None))
        else Decode_int content (i + 1)
      else Inr (Some INVALID, length content, Some InvalidInteger))"
  by pat_completeness auto
termination
  by (relation "measure (\<lambda>(content, i). length content - i)") auto

declare Decode_int.simps [simp del]

text \<open>
  The default case: the loop from \<open>i = 0\<close> to the first \<^verbatim>\<open>':'\<close>. The bytes of
  \<^verbatim>\<open>content[i+1 : i+1+strLen]\<close> are those of the backing array, \<open>content @ spare\<close>;
  when the upper bound is within the length they are bytes of \<open>content\<close> alone.
\<close>

function Decode_string :: "string \<Rightarrow> string \<Rightarrow> nat \<Rightarrow> decode_result" where
  "Decode_string content spare i =
     (if i < length content then
        if content ! i = CHR '':'' then
          (case Atoi (take i content) of
             None \<Rightarrow> Inr (None, i + 1, Some InvalidStringLength)
           | Some strLen \<Rightarrow>
               if strLen < 0 then Inl SliceBoundsOutOfRange
               else if int (i + 1) + strLen \<le> int (length content)
               then Inr (Some (STRING (take (nat strLen) (drop (i + 1) content))),
                         i + 1 + nat strLen, None)
               else if int (i + 1) + strLen \<le> int (length content + length spare)
               then Inr (Some (STRING (take (nat strLen) (drop (i + 1) (content @ spare)))),
                         i + 1 + nat strLen, None)
               else Inl SliceBoundsOutOfRange)
        else Decode_string content spare (i + 1)
      else Inr (None, length content, Some InvalidString))"
  by pat_completeness auto
termination
  by (relation "measure (\<lambda>(content, spare, i). length content - i)") auto

declare Decode_string.simps [simp del]

text \<open>
  \<^verbatim>\<open>Decode\<close> with the loops of its list and dictionary cases; \<open>Decode_list content spare i list\<close>
  and \<open>Decode_dict content spare i dict\<close> are the loops at index \<open>i\<close> with the elements
  collected so far. A nil key makes \<^verbatim>\<open>key.Type\<close> panic.
\<close>

function Decode :: "string \<Rightarrow> string \<Rightarrow> decode_result"
  and Decode_list :: "string \<Rightarrow> string \<Rightarrow> nat \<Rightarrow> Data option list \<Rightarrow> decode_result"
  and Decode_dict ::
    "string \<Rightarrow> string \<Rightarrow> nat \<Rightarrow> (string \<times> Data option) list \<Rightarrow> decode_result"
where
  "Decode content spare =
     (if length content = 0 then Inr (None, 0, None)
      else
        let firstByte = content ! 0
        in if firstByte = CHR ''i'' then Decode_int content 1
           else if firstByte = CHR ''l'' then Decode_list content spare 1 []
           else if firstByte = CHR ''d'' then Decode_dict content spare 1 []
           else Decode_string content spare 0)"
| "Decode_list content spare i list =
     (if i < length content then
        if content ! i = CHR ''e'' then Inr (Some (LIST list), i + 1, None)
        else
          (case Decode (drop i content) spare of
             Inl p \<Rightarrow> Inl p
           | Inr r \<Rightarrow>
               (case r of (elem, count, err) \<Rightarrow>
                  (case err of
                     Some e \<Rightarrow> Inr (Some (LIST list), count, Some e)
                   | None \<Rightarrow> Decode_list content spare (i + count - 1 + 1) (list @ [elem]))))
      else Inr (Some (LIST list), length content, Some InvalidList))"
| "Decode_dict content spare i dict =
     (if i < length content then
        if content ! i = CHR ''e'' then Inr (Some (DICT dict), i + 1, None)
        else
          (case Decode (drop i content) spare of
             Inl p \<Rightarrow> Inl p
           | Inr r \<Rightarrow>
               (case r of (key, count, err) \<Rightarrow>
                  (case err of
                     Some e \<Rightarrow> Inr (Some (DICT dict), count, Some e)
                   | None \<Rightarrow>
                       (case key of
                          None \<Rightarrow> Inl NilDereference
                        | Some k \<Rightarrow>
                            (if \<not> is_STRING k
                             then Inr (Some (DICT dict), count, Some InvalidDictionaryKey)
                             else if length content < i + count then Inl SliceBoundsOutOfRange
                             else
                               (case Decode (drop (i + count) content) spare of
                                  Inl p \<Rightarrow> Inl p
                                | Inr r' \<Rightarrow>
                                    (case r' of (val, count', err') \<Rightarrow>
                                       (case err' of
                                          Some e \<Rightarrow> Inr (Some (DICT dict), count', Some e)
                                        | None \<Rightarrow>
                                            Decode_dict content spare (i + count + count' - 1 + 1)
                                              (AList.update (STRING_value k) val dict)))))))))
      else Inr (Some (DICT dict), length content, Some InvalidDictionary))"
  by pat_completeness auto

text \<open>
  Termination: every successful decode of a non-empty slice consumes at least one byte,
  so the loops advance. This is proved on the domain of the functions first.
\<close>

lemma Decode_int_count:
  "Decode_int content i = Inr (d, n, e) \<Longrightarrow> content \<noteq> [] \<Longrightarrow> 1 \<le> n"
  by (induction content i rule: Decode_int.induct)
     (subst (asm) (2) Decode_int.simps, auto simp: Suc_le_eq split: if_splits option.splits)

lemma Decode_string_count:
  "Decode_string content spare i = Inr (d, n, e) \<Longrightarrow> content \<noteq> [] \<Longrightarrow> 1 \<le> n"
  by (induction content spare i rule: Decode_string.induct)
     (subst (asm) (2) Decode_string.simps, auto simp: Suc_le_eq split: if_splits option.splits)

lemma Decode_count_pos_dom:
  "Decode_Decode_list_Decode_dict_dom (Inl (content, spare)) \<Longrightarrow>
     content \<noteq> [] \<Longrightarrow> Decode content spare = Inr (d, n, None) \<Longrightarrow> 1 \<le> n"
  "Decode_Decode_list_Decode_dict_dom (Inr (Inl (content, spare, i, l))) \<Longrightarrow>
     Decode_list content spare i l = Inr (d, n, None) \<Longrightarrow> 1 \<le> n"
  "Decode_Decode_list_Decode_dict_dom (Inr (Inr (content, spare, i, dict))) \<Longrightarrow>
     Decode_dict content spare i dict = Inr (d, n, None) \<Longrightarrow> 1 \<le> n"
proof (induct content spare and content spare i l and content spare i dict
       arbitrary: d n and d n and d n
       rule: Decode_Decode_list_Decode_dict.pinduct)
  case (1 content spare)
  note eq = 1(5)[unfolded Decode.psimps[OF 1(1)] Let_def]
  have ne: "length content \<noteq> 0" using 1(4) by simp
  show ?case
  proof (cases "content ! 0 = CHR ''i''")
    case True
    then show ?thesis using eq ne 1(4) by (auto dest: Decode_int_count)
  next
    case ni: False
    show ?thesis
    proof (cases "content ! 0 = CHR ''l''")
      case True
      then have "Decode_list content spare 1 [] = Inr (d, n, None)" using eq ne by simp
      from 1(2)[OF ne refl ni True this] show ?thesis .
    next
      case nl: False
      show ?thesis
      proof (cases "content ! 0 = CHR ''d''")
        case True
        then have "Decode_dict content spare 1 [] = Inr (d, n, None)" using eq ne by simp
        from 1(3)[OF ne refl ni nl True this] show ?thesis .
      next
        case False
        then show ?thesis using eq ne ni nl 1(4) by (auto dest: Decode_string_count)
      qed
    qed
  qed
next
  case (2 content spare i l)
  note eq = 2(4)[unfolded Decode_list.psimps[OF 2(1)]]
  show ?case
  proof (cases "i < length content \<and> content ! i \<noteq> CHR ''e''")
    case False
    then show ?thesis using eq by (auto split: if_splits)
  next
    case True
    then have a: "i < length content" "content ! i \<noteq> CHR ''e''" by simp_all
    show ?thesis
    proof (cases "Decode (drop i content) spare")
      case (Inl p)
      then show ?thesis using eq a by simp
    next
      case (Inr r)
      obtain elem count err where r: "r = (elem, count, err)" by (cases r)
      show ?thesis
      proof (cases err)
        case (Some e)
        then show ?thesis using eq a Inr r by simp
      next
        case None
        have "Decode_list content spare (i + count - 1 + 1) (l @ [elem]) = Inr (d, n, None)"
          using eq a Inr r None by simp
        from 2(3)[OF a Inr r[symmetric] refl None this]
        show ?thesis .
      qed
    qed
  qed
next
  case (3 content spare i dict)
  note eq = 3(5)[unfolded Decode_dict.psimps[OF 3(1)]]
  show ?case
  proof (cases "i < length content \<and> content ! i \<noteq> CHR ''e''")
    case False
    then show ?thesis using eq by (auto split: if_splits)
  next
    case True
    then have a: "i < length content" "content ! i \<noteq> CHR ''e''" by simp_all
    show ?thesis
    proof (cases "Decode (drop i content) spare")
      case (Inl p)
      then show ?thesis using eq a by simp
    next
      case (Inr r)
      obtain key count err where r: "r = (key, count, err)" by (cases r)
      show ?thesis
      proof (cases err)
        case (Some e)
        then show ?thesis using eq a Inr r by simp
      next
        case None
        show ?thesis
        proof (cases key)
          case kn: None
          then show ?thesis using eq a Inr r None by simp
        next
          case (Some k)
          show ?thesis
          proof (cases "is_STRING k \<and> \<not> length content < i + count")
            case False
            then show ?thesis using eq a Inr r None Some by (auto split: if_splits)
          next
            case t2: True
            show ?thesis
            proof (cases "Decode (drop (i + count) content) spare")
              case l2: (Inl p)
              then show ?thesis using eq a Inr r None Some t2 by simp
            next
              case r2: (Inr r')
              obtain val count' err' where r': "r' = (val, count', err')" by (cases r')
              show ?thesis
              proof (cases err')
                case s2: (Some e)
                then show ?thesis using eq a Inr r None Some t2 r2 r' by simp
              next
                case n2: None
                have rec: "Decode_dict content spare (i + count + count' - 1 + 1)
                        (AList.update (STRING_value k) val dict) = Inr (d, n, None)"
                  using eq a Inr r None Some t2 r2 r' n2 by simp
                have c1: "\<not> \<not> is_STRING k" and c2: "\<not> length content < i + count"
                  using t2 by simp_all
                from 3(4)[OF a Inr r[symmetric] refl None Some c1 c2 r2 r'[symmetric] refl n2 rec]
                show ?thesis .
              qed
            qed
          qed
        qed
      qed
    qed
  qed
qed

lemma Decode_total: "All Decode_Decode_list_Decode_dict_dom"
  apply (relation "measure (\<lambda>x. case x of Inl (content, spare) \<Rightarrow> 2 * length content
                     | Inr (Inl (content, spare, i, l)) \<Rightarrow> 2 * (length content - i) + 1
                     | Inr (Inr (content, spare, i, d)) \<Rightarrow> 2 * (length content - i) + 1)")
         apply simp_all
  subgoal for content x by (cases content) simp_all
  subgoal for content x by (cases content) simp_all
  subgoal premises prems for content spare i b x y xa ya
  proof -
    have e: "Decode (drop i content) spare = Inr (x, xa, None)"
      using prems(3,4,5) by simp
    have "drop i content \<noteq> []" using prems(1) by simp
    from Decode_count_pos_dom(1)[OF prems(7) this e] prems(1) show ?thesis by simp
  qed
  subgoal premises prems for content spare i b x y xa ya x2
  proof -
    have e: "Decode (drop i content) spare = Inr (Some x2, xa, None)"
      using prems(3,4,5) by simp
    have "drop i content \<noteq> []" using prems(1) by simp
    from Decode_count_pos_dom(1)[OF prems(15) this e] prems(1) show ?thesis by simp
  qed
  done

termination Decode
  by (rule Decode_total)

lemma Decode_count_pos:
  "content \<noteq> [] \<Longrightarrow> Decode content spare = Inr (d, n, None) \<Longrightarrow> 1 \<le> n"
  using Decode_count_pos_dom(1)[of content spare d n] Decode_total by blast

declare Decode.simps [simp del] Decode_list.simps [simp del] Decode_dict.simps [simp del]

subsection \<open>Encode\<close>

text \<open>
  \<^verbatim>\<open>Encode\<close> dereferences its argument at once, so a nil pointer (also as a list
  element or a dictionary value) panics. \<open>append_all\<close> is the loop that appends the
  encodings one after the other; \<open>map_index dict key\<close> is \<^verbatim>\<open>dict[key]\<close>.
\<close>

fun append_all :: "string \<Rightarrow> (go_panic + string) list \<Rightarrow> go_panic + string" where
  "append_all encoded [] = Inr encoded"
| "append_all encoded (Inl p # rs) = Inl p"
| "append_all encoded (Inr bs # rs) = append_all (encoded @ bs) rs"

definition map_index :: "(string \<times> Data option) list \<Rightarrow> string \<Rightarrow> Data option" where
  "map_index dict key = (case map_of dict key of Some v \<Rightarrow> v | None \<Rightarrow> None)"

function Encode :: "Data option \<Rightarrow> go_panic + string" where
  "Encode None = Inl NilDereference"
| "Encode (Some (STRING str)) = Inr (Sprintf_d (int (length str)) @ '':'' @ str)"
| "Encode (Some (INTEGER v)) = Inr (''i'' @ Sprintf_d v @ ''e'')"
| "Encode (Some (LIST list)) =
     (case append_all ''l'' (map Encode list) of
        Inl p \<Rightarrow> Inl p
      | Inr encoded \<Rightarrow> Inr (encoded @ ''e''))"
| "Encode (Some (DICT dict)) =
     (let keys = sort (remdups (map fst dict))
      in case append_all ''d''
              (concat (map (\<lambda>key. [Encode (Some (STRING key)), Encode (map_index dict key)])
                 keys)) of
           Inl p \<Rightarrow> Inl p
         | Inr encoded \<Rightarrow> Inr (encoded @ ''e''))"
| "Encode (Some INVALID) = Inr []"
  by pat_completeness auto
termination
proof (relation "measure (size_option size)", goal_cases)
  case 1
  show ?case by simp
next
  case (2 list x)
  then have "size_option size x \<le> size_list (size_option size) list"
    by (simp add: size_list_estimation')
  then show ?case by simp
next
  case (3 dict keys key)
  show ?case by simp
next
  case (4 dict keys key)
  have "size_option size (map_index dict key)
          \<le> size_list (size_prod (\<lambda>x. 0) (size_option size)) dict"
  proof (cases "map_of dict key")
    case None
    then show ?thesis using 4 by (simp add: map_of_eq_None_iff)
  next
    case (Some v)
    then have "(key, v) \<in> set dict" by (rule map_of_SomeD)
    then have "size_prod (\<lambda>x. 0) (size_option size) (key, v)
                 \<le> size_list (size_prod (\<lambda>x. 0) (size_option size)) dict"
      by (rule size_list_estimation') simp
    then show ?thesis using Some by (simp add: map_index_def)
  qed
  then show ?case by simp
qed


subsection \<open>The specification's grammar\<close>

text \<open>
  The encoding of a value as the specification's grammar gives it: \<^verbatim>\<open>i<int>e\<close>,
  \<^verbatim>\<open><len>:<bytes>\<close>, \<^verbatim>\<open>l<items>e\<close>, \<^verbatim>\<open>d<(string,value)*>e\<close>, the entries of a
  dictionary in the order they are listed. \<open>canonical\<close> says that a value is one of the
  specification's data model written in canonical form: integers are signed 64-bit, no
  pointer is nil, and the keys of every dictionary are listed in strictly ascending
  lexicographic byte order. The encodings of the canonical values are the well-formed
  canonical inputs.
\<close>

definition string_encoding :: "string \<Rightarrow> string" where
  "string_encoding s = Sprintf_d (int (length s)) @ '':'' @ s"

fun bencoding :: "Data \<Rightarrow> string" where
  "bencoding (STRING s) = string_encoding s"
| "bencoding (INTEGER v) = ''i'' @ Sprintf_d v @ ''e''"
| "bencoding (LIST xs) =
     ''l'' @ concat (map (\<lambda>x. case x of None \<Rightarrow> [] | Some d \<Rightarrow> bencoding d) xs) @ ''e''"
| "bencoding (DICT kvs) =
     ''d'' @ concat (map (\<lambda>(k, v). string_encoding k @
                            (case v of None \<Rightarrow> [] | Some d \<Rightarrow> bencoding d)) kvs) @ ''e''"
| "bencoding INVALID = []"

fun canonical :: "Data \<Rightarrow> bool" where
  "canonical (STRING s) = (int (length s) < 2 ^ 63)"
| "canonical (INTEGER v) = (- (2 ^ 63) \<le> v \<and> v < 2 ^ 63)"
| "canonical (LIST xs) =
     list_all (\<lambda>x. case x of None \<Rightarrow> False | Some d \<Rightarrow> canonical d) xs"
| "canonical (DICT kvs) =
     (sorted_wrt (<) (map fst kvs) \<and>
      list_all (\<lambda>(k, v). int (length k) < 2 ^ 63 \<and>
                  (case v of None \<Rightarrow> False | Some d \<Rightarrow> canonical d)) kvs)"
| "canonical INVALID = False"

text \<open>A decimal numeral without redundant sign or leading zeros.\<close>

definition minimal_numeral :: "string \<Rightarrow> bool" where
  "minimal_numeral s =
     (let ds = (if s \<noteq> [] \<and> hd s = CHR ''-'' then tl s else s)
      in ds \<noteq> [] \<and> list_all is_digit ds \<and>
         (if hd ds = CHR ''0'' then s = ''0'' else True))"

text \<open>What the loops of \<^verbatim>\<open>Decode\<close> need of an element: its encoding is not empty,
  does not start with the terminator, and decodes to the element whatever follows.\<close>

abbreviation bencoding_opt :: "Data option \<Rightarrow> string" where
  "bencoding_opt \<equiv> (\<lambda>x. case x of None \<Rightarrow> [] | Some d \<Rightarrow> bencoding d)"

definition decodes_back :: "Data \<Rightarrow> bool" where
  "decodes_back d =
     (bencoding d \<noteq> [] \<and> hd (bencoding d) \<noteq> CHR ''e'' \<and>
      (\<forall>rest spare. Decode (bencoding d @ rest) spare = Inr (Some d, length (bencoding d), None)))"

text \<open>
  The claim about the order of the keys is about every value \<^verbatim>\<open>Encode\<close> returns for,
  canonical or not. \<open>nil_free\<close>: no list element and no dictionary value is a nil
  pointer, at any depth. \<open>keys_ascending\<close>: every dictionary, at any depth, lists its
  keys in strictly ascending lexicographic byte order. \<open>normalise\<close> is the value
  written in that form: \<open>sorted_entries\<close> lists the entries of the map that an
  association list denotes, one for every key, in ascending order of the keys, and
  \<open>normalise\<close> does so in every dictionary of a value.
\<close>

fun nil_free :: "Data \<Rightarrow> bool" where
  "nil_free (LIST xs) = list_all (\<lambda>x. case x of None \<Rightarrow> False | Some d \<Rightarrow> nil_free d) xs"
| "nil_free (DICT kvs) =
     list_all (\<lambda>(k, v). case v of None \<Rightarrow> False | Some d \<Rightarrow> nil_free d) kvs"
| "nil_free d = True"

fun keys_ascending :: "Data \<Rightarrow> bool" where
  "keys_ascending (LIST xs) =
     list_all (\<lambda>x. case x of None \<Rightarrow> True | Some d \<Rightarrow> keys_ascending d) xs"
| "keys_ascending (DICT kvs) =
     (sorted_wrt (<) (map fst kvs) \<and>
      list_all (\<lambda>(k, v). case v of None \<Rightarrow> True | Some d \<Rightarrow> keys_ascending d) kvs)"
| "keys_ascending d = True"

definition sorted_entries :: "(string \<times> 'a option) list \<Rightarrow> (string \<times> 'a option) list" where
  "sorted_entries kvs =
     map (\<lambda>k. (k, case map_of kvs k of Some v \<Rightarrow> v | None \<Rightarrow> None)) (sort (remdups (map fst kvs)))"

fun normalise :: "Data \<Rightarrow> Data" where
  "normalise (LIST xs) = LIST (map (map_option normalise) xs)"
| "normalise (DICT kvs) =
     DICT (sorted_entries (map (\<lambda>(k, v). (k, map_option normalise v)) kvs))"
| "normalise d = d"


section \<open>Metainfo (torrent/torrent.go)\<close>

subsection \<open>Go's standard library: crypto/sha1 and fmt's \<^verbatim>\<open>%x\<close>\<close>

text \<open>
  \<^verbatim>\<open>sha1.Sum\<close>, written from FIPS 180-4. The 32-bit words are integers in
  \<open>[0, 2^32)\<close>, every addition and rotation reduced by \<open>take_bit 32\<close>; bytes are
  integers in \<open>[0, 256)\<close>. The message is padded with \<^verbatim>\<open>0x80\<close>, zeros and its length
  in bits as a 64-bit big-endian number, and processed in blocks of 64 bytes by 80
  rounds each.
\<close>

definition rotl32 :: "nat \<Rightarrow> int \<Rightarrow> int" where
  "rotl32 n x = take_bit 32 (push_bit n x) + drop_bit (32 - n) x"

definition be_bytes :: "nat list \<Rightarrow> int \<Rightarrow> int list" where
  "be_bytes shifts v = map (\<lambda>k. take_bit 8 (drop_bit k v)) shifts"

fun zero_bytes :: "nat \<Rightarrow> int list" where
  "zero_bytes 0 = []"
| "zero_bytes (Suc n) = 0 # zero_bytes n"

definition sha1_pad :: "int list \<Rightarrow> int list" where
  "sha1_pad m =
     m @ [0x80] @ zero_bytes ((119 - length m mod 64) mod 64) @
     be_bytes [56, 48, 40, 32, 24, 16, 8, 0] (take_bit 64 (8 * int (length m)))"

fun be32_words :: "int list \<Rightarrow> int list" where
  "be32_words (a # b # c # d # r) =
     (push_bit 24 a + push_bit 16 b + push_bit 8 c + d) # be32_words r"
| "be32_words _ = []"

text \<open>The message schedule, latest word first: 64 more words after the block's 16.\<close>

fun sha1_extend :: "nat \<Rightarrow> int list \<Rightarrow> int list" where
  "sha1_extend 0 ws = ws"
| "sha1_extend (Suc n) ws =
     sha1_extend n (rotl32 1 (ws ! 2 XOR ws ! 7 XOR ws ! 13 XOR ws ! 15) # ws)"

definition sha1_schedule :: "int list \<Rightarrow> int list" where
  "sha1_schedule w16 = rev (sha1_extend 64 (rev w16))"

definition sha1_f :: "nat \<Rightarrow> int \<Rightarrow> int \<Rightarrow> int \<Rightarrow> int" where
  "sha1_f i b c d =
     (if i < 20 then (b AND c) OR ((2 ^ 32 - 1 - b) AND d)
      else if i < 40 then b XOR c XOR d
      else if i < 60 then (b AND c) OR (b AND d) OR (c AND d)
      else b XOR c XOR d)"

definition sha1_k :: "nat \<Rightarrow> int" where
  "sha1_k i =
     (if i < 20 then 0x5A827999
      else if i < 40 then 0x6ED9EBA1
      else if i < 60 then 0x8F1BBCDC
      else 0xCA62C1D6)"

type_synonym sha1_state = "int \<times> int \<times> int \<times> int \<times> int"

fun sha1_round :: "nat \<Rightarrow> int \<Rightarrow> sha1_state \<Rightarrow> sha1_state" where
  "sha1_round i w (a, b, c, d, e) =
     (take_bit 32 (rotl32 5 a + sha1_f i b c d + e + sha1_k i + w), a, rotl32 30 b, c, d)"

fun sha1_rounds :: "nat \<Rightarrow> int list \<Rightarrow> sha1_state \<Rightarrow> sha1_state" where
  "sha1_rounds i [] st = st"
| "sha1_rounds i (w # ws) st = sha1_rounds (i + 1) ws (sha1_round i w st)"

fun sha1_add :: "sha1_state \<Rightarrow> sha1_state \<Rightarrow> sha1_state" where
  "sha1_add (h0, h1, h2, h3, h4) (a, b, c, d, e) =
     (take_bit 32 (h0 + a), take_bit 32 (h1 + b), take_bit 32 (h2 + c),
      take_bit 32 (h3 + d), take_bit 32 (h4 + e))"

definition sha1_block :: "int list \<Rightarrow> sha1_state \<Rightarrow> sha1_state" where
  "sha1_block chunk h = sha1_add h (sha1_rounds 0 (sha1_schedule (be32_words chunk)) h)"

function sha1_blocks :: "int list \<Rightarrow> sha1_state \<Rightarrow> sha1_state" where
  "sha1_blocks m h =
     (if m = [] then h else sha1_blocks (drop 64 m) (sha1_block (take 64 m) h))"
  by pat_completeness auto
termination
  by (relation "measure (\<lambda>(m, h). length m)") auto

declare sha1_blocks.simps [simp del]

fun sha1_digest :: "sha1_state \<Rightarrow> int list" where
  "sha1_digest (h0, h1, h2, h3, h4) =
     be_bytes [24, 16, 8, 0] h0 @ be_bytes [24, 16, 8, 0] h1 @ be_bytes [24, 16, 8, 0] h2 @
     be_bytes [24, 16, 8, 0] h3 @ be_bytes [24, 16, 8, 0] h4"

definition sha1_bytes :: "int list \<Rightarrow> int list" where
  "sha1_bytes m =
     sha1_digest (sha1_blocks (sha1_pad m)
       (0x67452301, 0xEFCDAB89, 0x98BADCFE, 0x10325476, 0xC3D2E1F0))"

definition sha1_Sum :: "string \<Rightarrow> string" where
  "sha1_Sum data = map char_of (sha1_bytes (map of_char data))"

text \<open>\<^verbatim>\<open>fmt.Sprintf("%x", bytes)\<close>: two lower-case hexadecimal digits for every byte.\<close>

definition hex_digit :: "int \<Rightarrow> char" where
  "hex_digit n = (if n < 10 then char_of (48 + n) else char_of (87 + n))"

definition Sprintf_x :: "string \<Rightarrow> string" where
  "Sprintf_x bs = concat (map (\<lambda>c. [hex_digit (of_char c div 16), hex_digit (of_char c mod 16)]) bs)"

subsection \<open>The typed accessors of \<^verbatim>\<open>Data\<close>\<close>

text \<open>
  \<^verbatim>\<open>AsString\<close>, \<^verbatim>\<open>AsBytes\<close>, \<^verbatim>\<open>AsInt\<close>, \<^verbatim>\<open>AsList\<close> and \<^verbatim>\<open>AsDict\<close> are type assertions on
  \<^verbatim>\<open>Value\<close>: they panic on a value of another kind, and calling them through a nil
  pointer panics as well. \<open>andThen\<close> passes a panic on; \<open>for_each\<close> is a \<^verbatim>\<open>for ... range\<close>
  loop that collects one result per element.
\<close>

fun AsString :: "Data option \<Rightarrow> go_panic + string" where
  "AsString None = Inl NilDereference"
| "AsString (Some (STRING s)) = Inr s"
| "AsString (Some _) = Inl TypeAssertion"

definition AsBytes :: "Data option \<Rightarrow> go_panic + string" where
  "AsBytes d = AsString d"

fun AsInt :: "Data option \<Rightarrow> go_panic + int" where
  "AsInt None = Inl NilDereference"
| "AsInt (Some (INTEGER v)) = Inr v"
| "AsInt (Some _) = Inl TypeAssertion"

fun AsList :: "Data option \<Rightarrow> go_panic + Data option list" where
  "AsList None = Inl NilDereference"
| "AsList (Some (LIST l)) = Inr l"
| "AsList (Some _) = Inl TypeAssertion"

fun AsDict :: "Data option \<Rightarrow> go_panic + (string \<times> Data option) list" where
  "AsDict None = Inl NilDereference"
| "AsDict (Some (DICT d)) = Inr d"
| "AsDict (Some _) = Inl TypeAssertion"

definition andThen :: "go_panic + 'a \<Rightarrow> ('a \<Rightarrow> go_panic + 'b) \<Rightarrow> go_panic + 'b" where
  "andThen r f = (case r of Inl p \<Rightarrow> Inl p | Inr v \<Rightarrow> f v)"

fun for_each :: "('a \<Rightarrow> go_panic + 'b) \<Rightarrow> 'a list \<Rightarrow> go_panic + 'b list" where
  "for_each f [] = Inr []"
| "for_each f (x # xs) = andThen (f x) (\<lambda>y. andThen (for_each f xs) (\<lambda>ys. Inr (y # ys)))"

subsection \<open>Torrent and File\<close>

text \<open>
  The structs. The field \<^verbatim>\<open>Length\<close> of \<^verbatim>\<open>Torrent\<close> is \<open>Length_Torrent\<close> here, since
  \<^verbatim>\<open>File\<close> has a field of the same name. Lengths and indices are \<^verbatim>\<open>int64\<close> (\<^verbatim>\<open>int\<close> has
  64 bits as well): they are integers here, and \<open>int64\<close> is the wrap-around of the
  two's complement arithmetic, applied wherever the code adds or divides.
\<close>

definition int64 :: "int \<Rightarrow> int" where
  "int64 x = (x + 2 ^ 63) mod 2 ^ 64 - 2 ^ 63"

record File =
  Length :: int
  Path :: string
  FirstPieceIndex :: int
  LastPieceIndex :: int

record Torrent =
  AnnounceList :: "string list"
  Name :: string
  UrlList :: "string list"
  CreatedBy :: string
  Comment :: string
  CreatedAt :: int
  FileList :: "File list"
  PieceLength :: int
  Pieces :: "string list"
  InfoHash :: string
  Length_Torrent :: int
  IsPrivate :: bool

definition NewFile :: "int \<Rightarrow> string \<Rightarrow> File" where
  "NewFile len path = \<lparr>Length = len, Path = path, FirstPieceIndex = 0, LastPieceIndex = 0\<rparr>"

subsection \<open>TorrentFromBencodeData, block by block\<close>

text \<open>The blocks \<^verbatim>\<open>// announce-list\<close> and \<^verbatim>\<open>// announce\<close>.\<close>

definition announce_list_block :: "(string \<times> Data option) list \<Rightarrow> go_panic + string list" where
  "announce_list_block rootDict =
     (case map_of rootDict ''announce-list'' of
        None \<Rightarrow> Inr []
      | Some announceList \<Rightarrow>
          andThen (AsList announceList) (\<lambda>announceListData.
          andThen (for_each (\<lambda>announceData.
                     andThen (AsList announceData) (for_each AsString)) announceListData)
            (\<lambda>tiers. Inr (concat tiers))))"

definition announce_block ::
  "(string \<times> Data option) list \<Rightarrow> string list \<Rightarrow> go_panic + string list" where
  "announce_block rootDict announceList =
     (case map_of rootDict ''announce'' of
        None \<Rightarrow> Inr announceList
      | Some announce \<Rightarrow>
          andThen (AsString announce) (\<lambda>a.
          Inr (if a \<in> set announceList then announceList else announceList @ [a])))"

text \<open>A string field that is read when its key is present (\<^verbatim>\<open>name\<close>, \<^verbatim>\<open>comment\<close>,
  \<^verbatim>\<open>created by\<close>) and is the empty string otherwise; likewise an integer field.\<close>

definition string_field :: "(string \<times> Data option) list \<Rightarrow> string \<Rightarrow> go_panic + string" where
  "string_field dict key =
     (case map_of dict key of None \<Rightarrow> Inr [] | Some v \<Rightarrow> AsString v)"

definition int_field :: "(string \<times> Data option) list \<Rightarrow> string \<Rightarrow> go_panic + int" where
  "int_field dict key =
     (case map_of dict key of None \<Rightarrow> Inr 0 | Some v \<Rightarrow> AsInt v)"

definition url_list_block :: "(string \<times> Data option) list \<Rightarrow> go_panic + string list" where
  "url_list_block rootDict =
     (case map_of rootDict ''url-list'' of
        None \<Rightarrow> Inr []
      | Some urlList \<Rightarrow> andThen (AsList urlList) (for_each AsString))"

text \<open>
  The block \<^verbatim>\<open>// files list\<close>: the path components are joined with \<^verbatim>\<open>/\<close>, and
  \<open>add_lengths\<close> is \<^verbatim>\<open>torrent.Length += file.Length\<close> file after file.
\<close>

fun join_path :: "string list \<Rightarrow> string" where
  "join_path [] = []"
| "join_path [p] = p"
| "join_path (p # ps) = p @ ''/'' @ join_path ps"

definition file_entry :: "Data option \<Rightarrow> go_panic + File" where
  "file_entry fileData =
     andThen (AsDict fileData) (\<lambda>fileDict.
     andThen (AsInt (map_index fileDict ''length'')) (\<lambda>len.
     andThen (case map_of fileDict ''path'' of
                None \<Rightarrow> Inr []
              | Some filePath \<Rightarrow>
                  andThen (AsList filePath) (\<lambda>pathData.
                  andThen (for_each AsString pathData) (\<lambda>parts. Inr (join_path parts))))
       (\<lambda>path. Inr (NewFile len path))))"

fun add_lengths :: "int \<Rightarrow> File list \<Rightarrow> int" where
  "add_lengths len [] = len"
| "add_lengths len (file # files) = add_lengths (int64 (len + Length file)) files"

definition files_block ::
  "(string \<times> Data option) list \<Rightarrow> string \<Rightarrow> go_panic + (File list \<times> int)" where
  "files_block infoDict name =
     (case map_of infoDict ''files'' of
        Some files \<Rightarrow>
          andThen (AsList files) (\<lambda>filesData.
          andThen (for_each file_entry filesData) (\<lambda>fileList.
          Inr (fileList, add_lengths 0 fileList)))
      | None \<Rightarrow>
          andThen (AsInt (map_index infoDict ''length'')) (\<lambda>len.
          Inr ([NewFile len name], len)))"

text \<open>
  The block \<^verbatim>\<open>// pieces\<close>: the loop \<^verbatim>\<open>for i := 0; i < len(piecesData); i += 20\<close>.
  \<^verbatim>\<open>AsBytes\<close> returns the slice that \<^verbatim>\<open>Decode\<close> has cut out of its input, so its
  capacity reaches to the end of the backing array of the input: \<open>tail\<close> is what
  that array holds after the bytes of the string (the rest of the input and its
  spare bytes). A last chunk shorter than 20 bytes makes \<^verbatim>\<open>piecesData[i:i+20]\<close> run
  past the length of the slice: it takes the missing bytes from \<open>tail\<close>, and panics
  only past the capacity. When the length is a multiple of 20, \<open>tail\<close> is not read.
\<close>

function pieces_loop :: "string \<Rightarrow> string \<Rightarrow> nat \<Rightarrow> go_panic + string list" where
  "pieces_loop piecesData tail i =
     (if i < length piecesData then
        if length piecesData + length tail < i + 20 then Inl SliceBoundsOutOfRange
        else andThen (pieces_loop piecesData tail (i + 20)) (\<lambda>pieces.
             Inr (Sprintf_x (take 20 (drop i (piecesData @ tail))) # pieces))
      else Inr [])"
  by pat_completeness auto
termination
  by (relation "measure (\<lambda>(piecesData, tail, i). length piecesData - i)") auto

declare pieces_loop.simps [simp del]

definition pieces_block ::
  "(string \<times> Data option) list \<Rightarrow> string \<Rightarrow> go_panic + string list" where
  "pieces_block infoDict tail =
     (case map_of infoDict ''pieces'' of
        None \<Rightarrow> Inr []
      | Some pieces \<Rightarrow> andThen (AsBytes pieces) (\<lambda>piecesData. pieces_loop piecesData tail 0))"

definition private_block :: "(string \<times> Data option) list \<Rightarrow> go_panic + bool" where
  "private_block infoDict =
     (case map_of infoDict ''private'' of
        None \<Rightarrow> Inr False
      | Some isPrivate \<Rightarrow> andThen (AsInt isPrivate) (\<lambda>v. Inr (v = 1)))"

text \<open>The block \<^verbatim>\<open>// info hash\<close>: the decoded info value is encoded again and hashed.\<close>

definition info_hash_block :: "(string \<times> Data option) list \<Rightarrow> go_panic + string" where
  "info_hash_block rootDict =
     andThen (Encode (map_index rootDict ''info'')) (\<lambda>bytes. Inr (sha1_Sum bytes))"

text \<open>
  The block \<^verbatim>\<open>// put piece indices in the files\<close>, the loop over \<^verbatim>\<open>torrent.FileList\<close>
  with the running \<^verbatim>\<open>pieceIndex\<close>. A piece length of 0 panics in the division; the
  quotient of the least \<^verbatim>\<open>int64\<close> by \<open>-1\<close> wraps around.
\<close>

fun piece_indices :: "int \<Rightarrow> int \<Rightarrow> File list \<Rightarrow> go_panic + File list" where
  "piece_indices pieceLength pieceIndex [] = Inr []"
| "piece_indices pieceLength pieceIndex (file # files) =
     (if pieceLength = 0 then Inl DivideByZero
      else
        let pieceCount = int64 (Length file sdiv pieceLength);
            pieceCount = (if Length file smod pieceLength \<noteq> 0 then int64 (pieceCount + 1)
                          else pieceCount)
        in andThen (piece_indices pieceLength (int64 (pieceIndex + pieceCount)) files) (\<lambda>rest.
           Inr (file\<lparr>FirstPieceIndex := pieceIndex,
                      LastPieceIndex := int64 (int64 (pieceIndex + pieceCount) - 1)\<rparr> # rest)))"

text \<open>
  \<^verbatim>\<open>TorrentFromBencodeData\<close>. \<open>tail\<close> is what the backing array of the value of
  \<^verbatim>\<open>pieces\<close> holds after its bytes; nothing else of the function depends on it.
\<close>

definition TorrentFromBencodeData :: "Data option \<Rightarrow> string \<Rightarrow> go_panic + Torrent option" where
  "TorrentFromBencodeData data tail =
     (if data = None then Inr None
      else
        andThen (AsDict data) (\<lambda>rootDict.
        andThen (AsDict (map_index rootDict ''info'')) (\<lambda>infoDict.
        andThen (announce_list_block rootDict) (\<lambda>announceList.
        andThen (announce_block rootDict announceList) (\<lambda>announceList.
        andThen (string_field infoDict ''name'') (\<lambda>name.
        andThen (url_list_block rootDict) (\<lambda>urlList.
        andThen (string_field rootDict ''comment'') (\<lambda>comment.
        andThen (string_field rootDict ''created by'') (\<lambda>createdBy.
        andThen (int_field rootDict ''creation date'') (\<lambda>createdAt.
        andThen (files_block infoDict name) (\<lambda>(fileList, len).
        andThen (int_field infoDict ''piece length'') (\<lambda>pieceLength.
        andThen (pieces_block infoDict tail) (\<lambda>pieces.
        andThen (private_block infoDict) (\<lambda>isPrivate.
        andThen (info_hash_block rootDict) (\<lambda>hash.
        andThen (piece_indices pieceLength 0 fileList) (\<lambda>fileList.
        Inr (Some \<lparr>AnnounceList = announceList, Name = name, UrlList = urlList,
                    CreatedBy = createdBy, Comment = comment, CreatedAt = createdAt,
                    FileList = fileList, PieceLength = pieceLength, Pieces = pieces,
                    InfoHash = hash, Length_Torrent = len,
                    IsPrivate = isPrivate\<rparr>)))))))))))))))))"

text \<open>
  \<^verbatim>\<open>TorrentFromBytes\<close>: the error of \<^verbatim>\<open>Decode\<close> is passed on, the count is dropped.
  \<open>data\<close> and \<open>spare\<close> are the slice and its spare bytes; \<open>tail\<close> is the part of
  \<open>data @ spare\<close> that follows the value of \<^verbatim>\<open>pieces\<close>.
\<close>

definition TorrentFromBytes ::
  "string \<Rightarrow> string \<Rightarrow> string \<Rightarrow> go_panic + (decode_error + Torrent option)" where
  "TorrentFromBytes data spare tail =
     andThen (Decode data spare) (\<lambda>(bencodeData, count, err).
       case err of
         Some e \<Rightarrow> Inr (Inl e)
       | None \<Rightarrow> andThen (TorrentFromBencodeData bencodeData tail) (\<lambda>torrent. Inr (Inr torrent)))"

subsection \<open>The info slice of a metainfo file\<close>

text \<open>
  The byte range of the info dictionary within the source bytes, as the specification's
  algorithm for the info-hash records it: the entries of the top-level dictionary are
  walked from the byte after \<^verbatim>\<open>d\<close>, a key and then a value at a time, and the bytes of
  the value of the key \<^verbatim>\<open>info\<close> are kept (of the last one, should the key occur twice).
  The walk reads the bytes of the file and nothing else: it has no spare bytes.
\<close>

definition decoded_at :: "string \<Rightarrow> nat \<Rightarrow> (Data option \<times> nat) option" where
  "decoded_at b i =
     (case Decode (drop i b) [] of
        Inl p \<Rightarrow> None
      | Inr r \<Rightarrow> (case r of (v, n, err) \<Rightarrow> (case err of None \<Rightarrow> Some (v, n) | Some e \<Rightarrow> None)))"

function info_slice_scan :: "string \<Rightarrow> nat \<Rightarrow> string option \<Rightarrow> string option" where
  "info_slice_scan b i found =
     (if i < length b \<and> b ! i \<noteq> CHR ''e'' then
        (case decoded_at b i of
           None \<Rightarrow> None
         | Some kr \<Rightarrow>
             (case kr of (key, kc) \<Rightarrow>
                (case decoded_at b (i + kc) of
                   None \<Rightarrow> None
                 | Some vr \<Rightarrow>
                     (case vr of (v, vc) \<Rightarrow>
                        if 0 < kc + vc then
                          info_slice_scan b (i + kc + vc)
                            (if key = Some (STRING ''info'')
                             then Some (take vc (drop (i + kc) b)) else found)
                        else None))))
      else found)"
  by pat_completeness auto
termination
  by (relation "measure (\<lambda>(b, i, found). length b - i)") auto

declare info_slice_scan.simps [simp del]

definition info_slice_of :: "string \<Rightarrow> string option" where
  "info_slice_of b =
     (if b \<noteq> [] \<and> b ! 0 = CHR ''d'' then info_slice_scan b 1 None else None)"

text \<open>The invariant that ties the walk to \<^verbatim>\<open>Decode\<close>'s dictionary loop: the slice found
  so far decodes to the value the dictionary holds under \<^verbatim>\<open>info\<close>.\<close>

definition slice_of_info :: "string option \<Rightarrow> (string \<times> Data option) list \<Rightarrow> bool" where
  "slice_of_info found dict =
     (case found of
        None \<Rightarrow> map_of dict ''info'' = None
      | Some s \<Rightarrow>
          (\<exists>v rest n. map_of dict ''info'' = Some v \<and> Decode (s @ rest) [] = Inr (v, n, None)))"

subsection \<open>Piece ranges of files, as the specification derives them\<close>

text \<open>
  The specification's piece range of a file: with \<open>file_start\<close> the sum of the lengths
  of the files listed before it, the first index is \<open>file_start / piece_length\<close> and
  the last one \<open>(file_start + file_length - 1) / piece_length\<close>, rounded down.
  \<open>piece_ranges\<close> reads the recorded ranges off a parsed torrent.
\<close>

fun cumulative_ranges :: "int \<Rightarrow> int \<Rightarrow> int list \<Rightarrow> (int \<times> int) list" where
  "cumulative_ranges piece_length file_start [] = []"
| "cumulative_ranges piece_length file_start (file_length # lengths) =
     (file_start div piece_length, (file_start + file_length - 1) div piece_length) #
     cumulative_ranges piece_length (file_start + file_length) lengths"

definition piece_ranges :: "Torrent \<Rightarrow> (int \<times> int) list" where
  "piece_ranges t = map (\<lambda>f. (FirstPieceIndex f, LastPieceIndex f)) (FileList t)"

subsection \<open>Metainfo files used below\<close>

text \<open>
  \<open>two_files\<close>: files \<^verbatim>\<open>a\<close> of 3 bytes and \<^verbatim>\<open>b\<close> of 5 bytes, pieces of 4 bytes, two piece
  hashes. \<open>sorted_info_metainfo\<close> and \<open>unsorted_info_metainfo\<close> are one single-file
  torrent written twice: the keys of the info dictionary are in ascending order in
  the first and in the order \<^verbatim>\<open>name\<close>, \<^verbatim>\<open>length\<close>, \<^verbatim>\<open>piece length\<close>, \<^verbatim>\<open>pieces\<close> in the
  second. \<open>sorted_info\<close> is the info value of both, \<open>example_torrent\<close> what
  \<^verbatim>\<open>TorrentFromBytes\<close> returns for both.
\<close>

definition two_files :: string where
  "two_files = ''d4:infod5:filesld6:lengthi3e4:pathl1:aeed6:lengthi5e4:pathl1:beee4:name1:t12:piece lengthi4e6:pieces40:0123456789abcdefghij0123456789abcdefghijee''"

definition sorted_info_metainfo :: string where
  "sorted_info_metainfo =
     ''d8:announce3:u:/4:infod6:lengthi1e4:name1:t12:piece lengthi1e6:pieces20:aaaaaaaaaaaaaaaaaaaaee''"

definition unsorted_info_metainfo :: string where
  "unsorted_info_metainfo =
     ''d8:announce3:u:/4:infod4:name1:t6:lengthi1e12:piece lengthi1e6:pieces20:aaaaaaaaaaaaaaaaaaaaee''"

definition sorted_info :: Data where
  "sorted_info = DICT [(''length'', Some (INTEGER 1)), (''name'', Some (STRING ''t'')),
                       (''piece length'', Some (INTEGER 1)),
                       (''pieces'', Some (STRING ''aaaaaaaaaaaaaaaaaaaa''))]"

definition example_torrent :: Torrent where
  "example_torrent =
     \<lparr>AnnounceList = [''u:/''], Name = ''t'', UrlList = [], CreatedBy = [], Comment = [],
       CreatedAt = 0,
       FileList = [\<lparr>Length = 1, Path = ''t'', FirstPieceIndex = 0, LastPieceIndex = 0\<rparr>],
       PieceLength = 1, Pieces = [''6161616161616161616161616161616161616161''],
       InfoHash = sha1_Sum ''d6:lengthi1e4:name1:t12:piece lengthi1e6:pieces20:aaaaaaaaaaaaaaaaaaaae'',
       Length_Torrent = 1, IsPrivate = False\<rparr>"

section \<open>Verifier (torrent/torrent.go, VerifyTorrent)\<close>

text \<open>
  \<^verbatim>\<open>VerifyTorrent\<close> reads the files in the order of the list through one buffer,
  \<^verbatim>\<open>pieceBuf\<close>, and hashes the slice \<^verbatim>\<open>piece\<close>. The two share memory after
  \<^verbatim>\<open>piece = pieceBuf[:n]\<close>, so the state keeps the array of \<^verbatim>\<open>pieceBuf\<close> and says of
  \<^verbatim>\<open>piece\<close> whether it is a slice \<^verbatim>\<open>pieceBuf[:n]\<close> of that array (\<open>InPieceBuf n\<close>) or a
  slice of an array of its own, given by its bytes (\<open>OwnArray\<close>: the array made at the
  start, or one that \<^verbatim>\<open>append\<close> has allocated). The bytes of an own array past the
  length of \<^verbatim>\<open>piece\<close> are never read again, and are not kept.

  The files are a function from the path of a file of the torrent to the content
  found at \<^verbatim>\<open>filepath.Join(contentPath, file.Path)\<close>, \<open>None\<close> when \<^verbatim>\<open>os.Stat\<close> or
  \<^verbatim>\<open>os.Open\<close> fails. \<^verbatim>\<open>f.Read(pieceBuf)\<close> on a regular file fills the buffer unless the
  file ends first, returns \<^verbatim>\<open>io.EOF\<close> with no byte at the end of the file, and
  returns 0 bytes and no error for an empty buffer.
\<close>

datatype verify_error =
    TorrentFileError
  | DecodeFailed decode_error
  | MissingFile string
  | PieceCorrupted nat

datatype piece_slice = OwnArray string | InPieceBuf nat

record verify_state =
  pieceBuf :: string
  piece :: piece_slice
  pieceIndex :: nat

definition piece_bytes :: "verify_state \<Rightarrow> string" where
  "piece_bytes st = (case piece st of OwnArray bs \<Rightarrow> bs | InPieceBuf n \<Rightarrow> take n (pieceBuf st))"

text \<open>
  The branch \<^verbatim>\<open>n < int(pieceLength)\<close>. With \<^verbatim>\<open>len(piece) < pieceLength\<close> the chunk is
  appended: in place when \<^verbatim>\<open>piece\<close> is a slice of \<^verbatim>\<open>pieceBuf\<close> and the capacity
  suffices (the bytes \<^verbatim>\<open>pieceBuf[:n]\<close> are then copied within the array of
  \<^verbatim>\<open>pieceBuf\<close>), into a new array otherwise. Else \<^verbatim>\<open>copy(piece, pieceBuf[:n])\<close> is
  followed by \<^verbatim>\<open>piece = piece[:n]\<close>.
\<close>

definition carry_chunk :: "nat \<Rightarrow> nat \<Rightarrow> verify_state \<Rightarrow> verify_state" where
  "carry_chunk pieceLength n st =
     (case piece st of
        OwnArray bs \<Rightarrow>
          if length bs < pieceLength
          then st\<lparr>piece := OwnArray (bs @ take n (pieceBuf st))\<rparr>
          else st\<lparr>piece := OwnArray (take n (pieceBuf st))\<rparr>
      | InPieceBuf k \<Rightarrow>
          if k < pieceLength then
            if k + n \<le> pieceLength
            then st\<lparr>pieceBuf := take k (pieceBuf st) @ take n (pieceBuf st) @
                                    drop (k + n) (pieceBuf st),
                    piece := InPieceBuf (k + n)\<rparr>
            else st\<lparr>piece := OwnArray (take k (pieceBuf st) @ take n (pieceBuf st))\<rparr>
          else st\<lparr>piece := InPieceBuf n\<rparr>)"

text \<open>
  The inner loop over one file, \<open>unread\<close> being the bytes of the file not read yet and
  \<open>lastFile\<close> the test \<^verbatim>\<open>fileIndex == len(torrent.FileList)-1\<close>. The result is a panic,
  the error returned, or the state in which the loop is left by \<^verbatim>\<open>break\<close>.
\<close>

function file_loop ::
  "nat \<Rightarrow> string list \<Rightarrow> bool \<Rightarrow> string \<Rightarrow> verify_state \<Rightarrow>
     go_panic + (verify_error + verify_state)" where
  "file_loop pieceLength pieceHashes lastFile unread st =
     (if pieceLength = 0 \<or> unread = [] then Inr (Inr st)
      else
        let n = min pieceLength (length unread);
            st = st\<lparr>pieceBuf := take n unread @ drop n (pieceBuf st)\<rparr>;
            st = (if n < pieceLength then carry_chunk pieceLength n st
                  else st\<lparr>piece := InPieceBuf n\<rparr>)
        in if n < pieceLength \<and> \<not> lastFile then Inr (Inr st)
           else if length pieceHashes \<le> pieceIndex st then Inl IndexOutOfRange
           else if Sprintf_x (sha1_Sum (piece_bytes st)) \<noteq> pieceHashes ! pieceIndex st
           then Inr (Inl (PieceCorrupted (pieceIndex st)))
           else
             let st = st\<lparr>pieceIndex := pieceIndex st + 1\<rparr>
             in if pieceIndex st = length pieceHashes then Inr (Inr st)
                else file_loop pieceLength pieceHashes lastFile (drop n unread) st)"
  by pat_completeness auto
termination
  by (relation "measure (\<lambda>(pieceLength, pieceHashes, lastFile, unread, st). length unread)") auto

declare file_loop.simps [simp del]

text \<open>
  The loop over the files; \<^verbatim>\<open>VerifyTorrent\<close> after the torrent is parsed
  (\<open>verify_files\<close>: the \<^verbatim>\<open>os.Stat\<close> of every file, the two buffers, the loop), and
  \<^verbatim>\<open>VerifyTorrent\<close> itself, \<open>torrent_file\<close> being what \<^verbatim>\<open>os.ReadFile\<close> returns. A nil
  torrent is dereferenced.
\<close>

fun files_loop ::
  "nat \<Rightarrow> string list \<Rightarrow> (string \<Rightarrow> string option) \<Rightarrow> File list \<Rightarrow> verify_state \<Rightarrow>
     go_panic + verify_error option" where
  "files_loop pieceLength pieceHashes fs [] st = Inr None"
| "files_loop pieceLength pieceHashes fs (file # files) st =
     (case fs (Path file) of
        None \<Rightarrow> Inr (Some (MissingFile (Path file)))
      | Some content \<Rightarrow>
          (case file_loop pieceLength pieceHashes (files = []) content st of
             Inl p \<Rightarrow> Inl p
           | Inr r \<Rightarrow>
               (case r of
                  Inl e \<Rightarrow> Inr (Some e)
                | Inr st' \<Rightarrow> files_loop pieceLength pieceHashes fs files st')))"

definition verify_files :: "Torrent \<Rightarrow> (string \<Rightarrow> string option) \<Rightarrow> go_panic + verify_error option" where
  "verify_files torrent fs =
     (case find (\<lambda>file. fs (Path file) = None) (FileList torrent) of
        Some file \<Rightarrow> Inr (Some (MissingFile (Path file)))
      | None \<Rightarrow>
          if PieceLength torrent < 0 then Inl MakeNegativeLen
          else
            let zeros = replicate (nat (PieceLength torrent)) (CHR 0x00)
            in files_loop (nat (PieceLength torrent)) (Pieces torrent) fs (FileList torrent)
                 \<lparr>pieceBuf = zeros, piece = OwnArray zeros, pieceIndex = 0\<rparr>)"

definition VerifyTorrent ::
  "string option \<Rightarrow> string \<Rightarrow> string \<Rightarrow> (string \<Rightarrow> string option) \<Rightarrow>
     go_panic + verify_error option" where
  "VerifyTorrent torrent_file spare tail fs =
     (case torrent_file of
        None \<Rightarrow> Inr (Some TorrentFileError)
      | Some content \<Rightarrow>
          andThen (TorrentFromBytes content spare tail) (\<lambda>r.
            case r of
              Inl e \<Rightarrow> Inr (Some (DecodeFailed e))
            | Inr None \<Rightarrow> Inl NilDereference
            | Inr (Some torrent) \<Rightarrow> verify_files torrent fs))"

subsection \<open>The logical stream and its windows, as the specification has them\<close>

text \<open>
  The logical byte stream of a torrent is the concatenation of its files in the order
  of the list; its windows are the consecutive chunks of \<open>piece_length\<close> bytes, the
  last one possibly shorter.
\<close>

function windows :: "nat \<Rightarrow> string \<Rightarrow> string list" where
  "windows piece_length stream =
     (if piece_length = 0 \<or> stream = [] then []
      else take piece_length stream # windows piece_length (drop piece_length stream))"
  by pat_completeness auto
termination
  by (relation "measure (\<lambda>(piece_length, stream). length stream)") auto

declare windows.simps [simp del]

definition logical_stream :: "Torrent \<Rightarrow> (string \<Rightarrow> string option) \<Rightarrow> string" where
  "logical_stream torrent fs =
     concat (map (\<lambda>file. case fs (Path file) of None \<Rightarrow> [] | Some content \<Rightarrow> content)
               (FileList torrent))"

subsection \<open>Content used below\<close>

text \<open>
  \<open>boundary_metainfo\<close>: the files \<^verbatim>\<open>a\<close> (3 bytes) and \<^verbatim>\<open>b\<close> (5 bytes), pieces of 4
  bytes, and as piece hashes the SHA-1 of \<^verbatim>\<open>abcd\<close> and of \<^verbatim>\<open>efgh\<close>;
  \<open>boundary_torrent\<close> is what \<^verbatim>\<open>TorrentFromBytes\<close> returns for it, and
  \<open>boundary_files\<close> holds \<^verbatim>\<open>abc\<close> and \<^verbatim>\<open>defgh\<close>. \<open>single_torrent\<close> has the same
  eight bytes in one file.
\<close>

definition boundary_files :: "string \<Rightarrow> string option" where
  "boundary_files = map_of [(''a'', ''abc''), (''b'', ''defgh'')]"

definition boundary_pieces :: string where
  "boundary_pieces =
     [CHR 0x81, CHR 0xFE, CHR 0x8B, CHR 0xFE, CHR 0x87, CHR 0x57, CHR 0x6C, CHR 0x3E,
       CHR 0xCB, CHR 0x22, CHR 0x42, CHR 0x6F, CHR 0x8E, CHR 0x57, CHR 0x84, CHR 0x73,
       CHR 0x82, CHR 0x91, CHR 0x7A, CHR 0xCF, CHR 0x2A, CHR 0xED, CHR 0x8A, CHR 0xA9,
       CHR 0xF8, CHR 0x26, CHR 0xC2, CHR 0x1E, CHR 0xF0, CHR 0x7D, CHR 0x5E, CHR 0xE1,
       CHR 0x5B, CHR 0x48, CHR 0xEE, CHR 0xA0, CHR 0x6E, CHR 0x9C, CHR 0x8A, CHR 0x62]"

definition boundary_info :: string where
  "boundary_info =
     ''d5:filesld6:lengthi3e4:pathl1:aeed6:lengthi5e4:pathl1:beee4:name1:t12:piece lengthi4e6:pieces40:''
     @ boundary_pieces @ ''e''"

definition boundary_metainfo :: string where
  "boundary_metainfo = ''d4:info'' @ boundary_info @ ''e''"

definition boundary_torrent :: Torrent where
  "boundary_torrent =
     \<lparr>AnnounceList = [], Name = ''t'', UrlList = [], CreatedBy = [], Comment = [],
       CreatedAt = 0,
       FileList = [\<lparr>Length = 3, Path = ''a'', FirstPieceIndex = 0, LastPieceIndex = 0\<rparr>,
                   \<lparr>Length = 5, Path = ''b'', FirstPieceIndex = 1, LastPieceIndex = 2\<rparr>],
       PieceLength = 4,
       Pieces = [''81fe8bfe87576c3ecb22426f8e57847382917acf'',
                 ''2aed8aa9f826c21ef07d5ee15b48eea06e9c8a62''],
       InfoHash = sha1_Sum boundary_info, Length_Torrent = 8, IsPrivate = False\<rparr>"

definition single_files :: "string \<Rightarrow> string option" where
  "single_files = map_of [(''t'', ''abcdefgh'')]"

definition single_torrent :: Torrent where
  "single_torrent =
     boundary_torrent\<lparr>FileList :=
       [\<lparr>Length = 8, Path = ''t'', FirstPieceIndex = 0, LastPieceIndex = 1\<rparr>]\<rparr>"

chapter \<open>Properties\<close>

section \<open>Bitfield\<close>

lemma sdiv8_nonneg: "0 \<le> i \<Longrightarrow> i sdiv 8 = i div (8::int)"
  by (simp add: signed_divide_int_def sgn_if)

lemma smod8_nonneg: "0 \<le> i \<Longrightarrow> i smod 8 = i mod (8::int)"
  by (simp add: smod_mod_positive)

lemma test_bit_byte: "(drop_bit k (w :: byte) AND 1 \<noteq> 0) = bit w k"
  by (simp add: bit_iff_and_drop_bit_eq_1 and_one_eq mod_2_eq_odd bit_iff_odd_drop_bit)

lemma byte_index_in_range:
  assumes "0 \<le> i" "i < 8 * int (length bf)"
  shows "\<not> i div 8 < 0" "\<not> int (length bf) \<le> i div 8"
  using assms by simp_all

lemma SetPiece_in_range:
  assumes "0 \<le> i" "i < 8 * int (length bf)"
  shows "SetPiece bf i = bf[nat (i div 8) := (bf ! nat (i div 8)) OR push_bit (nat (7 - i mod 8)) 1]"
  using assms byte_index_in_range[OF assms]
  by (simp add: SetPiece_def Let_def sdiv8_nonneg smod8_nonneg)

lemma HasPiece_in_range:
  assumes "0 \<le> i" "i < 8 * int (length bf)"
  shows "HasPiece bf i = bit (bf ! nat (i div 8)) (nat (7 - i mod 8))"
  using assms byte_index_in_range[OF assms]
  by (simp add: HasPiece_def Let_def sdiv8_nonneg smod8_nonneg test_bit_byte)

lemma HasPiece_SetPiece:
  assumes "0 \<le> i" "i < 8 * int (length bf)"
  shows "HasPiece (SetPiece bf i) i"
proof -
  have l: "nat (i div 8) < length bf" using assms by simp
  have k: "nat (7 - i mod 8) < 8" using assms by simp
  have "i < 8 * int (length (SetPiece bf i))"
    using assms by (simp add: SetPiece_def Let_def)
  then have "HasPiece (SetPiece bf i) i = bit (SetPiece bf i ! nat (i div 8)) (nat (7 - i mod 8))"
    using assms(1) by (rule HasPiece_in_range[rotated])
  also have "\<dots>"
    using l k assms by (simp add: SetPiece_in_range bit_or_iff bit_exp_iff)
  finally show ?thesis .
qed

text \<open>Truncating division on the negative side: \<open>-7..-1\<close> land in byte 0 with a
  shift count of at least 8; anything below has a negative byte index.\<close>

lemma sdiv8_small_negative:
  assumes "i < 0" "- 8 < (i::int)"
  shows "i sdiv 8 = 0" "8 \<le> nat (7 - i smod 8)"
proof -
  have a: "\<bar>i\<bar> div 8 = 0" using assms by simp
  show "i sdiv 8 = 0" using a by (simp add: signed_divide_int_def)
  have "\<bar>i\<bar> mod 8 = \<bar>i\<bar>" using assms by simp
  then have "i smod 8 = i" using assms by (simp add: signed_modulo_int_def sgn_if)
  then show "8 \<le> nat (7 - i smod 8)" using assms by simp
qed

lemma sdiv8_big_negative:
  assumes "i \<le> -8"
  shows "(i::int) sdiv 8 < 0"
proof -
  have "1 \<le> \<bar>i\<bar> div 8" using assms by simp
  then show ?thesis using assms by (simp add: signed_divide_int_def sgn_if)
qed

lemma Bitfield_outside_bytes:
  assumes "i < 0 \<or> 8 * int (length bf) \<le> i"
  shows "\<not> HasPiece bf i \<and> SetPiece bf i = bf"
proof (cases "0 \<le> i")
  case True
  then have "int (length bf) \<le> i div 8" using assms by simp
  then show ?thesis using True by (simp add: HasPiece_def SetPiece_def Let_def sdiv8_nonneg)
next
  case False
  show ?thesis
  proof (cases "i \<le> -8")
    case True
    then show ?thesis
      using sdiv8_big_negative[OF True] by (simp add: HasPiece_def SetPiece_def Let_def)
  next
    case small: False
    have s: "i sdiv 8 = 0" "8 \<le> nat (7 - i smod 8)"
      using sdiv8_small_negative[of i] False small by simp_all
    have "push_bit (nat (7 - i smod 8)) (1::byte) = 0"
         "\<And>w::byte. drop_bit (nat (7 - i smod 8)) w = 0"
      using s(2) by simp_all
    then show ?thesis
      using s(1) by (simp add: HasPiece_def SetPiece_def Let_def del: push_bit_of_1)
  qed
qed

text \<open>
  Claim C7, as the code has it. For every bitfield \<open>bf\<close> and every index \<open>i\<close> with
  \<open>0 \<le> i < 8 * len bf\<close> (so in particular for every \<open>0 \<le> i < num_pieces\<close> when
  \<open>len bf = ceil (num_pieces / 8)\<close>), \<open>HasPiece i\<close> after \<open>SetPiece i\<close> is true and the
  only change is that bit \<open>7 - i mod 8\<close> of byte \<open>i div 8\<close> is switched on; setting
  pieces 0, 7 and 8 in two zero bytes gives \<open>[0x81, 0x80]\<close>. For every index outside
  the bytes, \<open>i < 0\<close> or \<open>i \<ge> 8 * len bf\<close>, \<open>HasPiece\<close> is false and \<open>SetPiece\<close> changes
  nothing. The bounds check is on the byte index: the bitfield does not know
  \<open>num_pieces\<close>, and the spare bits of the last byte count as in range.
\<close>

theorem Bitfield_set_then_has:
  "(0 \<le> i \<and> i < 8 * int (length bf) \<longrightarrow>
      HasPiece (SetPiece bf i) i \<and>
      SetPiece bf i = bf[nat (i div 8) := (bf ! nat (i div 8)) OR push_bit (nat (7 - i mod 8)) 1]) \<and>
   (i < 0 \<or> 8 * int (length bf) \<le> i \<longrightarrow> \<not> HasPiece bf i \<and> SetPiece bf i = bf) \<and>
   SetPiece (SetPiece (SetPiece [0, 0] 0) 7) 8 = [0x81, 0x80]"
proof (intro conjI impI)
  assume "0 \<le> i \<and> i < 8 * int (length bf)"
  then show "HasPiece (SetPiece bf i) i"
    by (simp add: HasPiece_SetPiece)
next
  assume "0 \<le> i \<and> i < 8 * int (length bf)"
  then show "SetPiece bf i = bf[nat (i div 8) := (bf ! nat (i div 8)) OR push_bit (nat (7 - i mod 8)) 1]"
    by (simp only: SetPiece_in_range)
next
  assume "i < 0 \<or> 8 * int (length bf) \<le> i"
  then show "\<not> HasPiece bf i" "SetPiece bf i = bf"
    using Bitfield_outside_bytes[of i bf] by simp_all
next
  show "SetPiece (SetPiece (SetPiece [0, 0] 0) 7) 8 = [0x81, 0x80]"
    by (simp add: SetPiece_def signed_divide_int_def signed_modulo_int_def)
qed

theorem Bitfield_set_then_has_witness:
  "HasPiece (SetPiece [0, 0] 9) 9 \<and>
   \<not> HasPiece [0xFF, 0xFF] 16 \<and> SetPiece [0xFF, 0xFF] 16 = [0xFF, 0xFF] \<and>
   \<not> HasPiece [0xFF, 0xFF] (- 1) \<and> SetPiece [0xFF, 0xFF] (- 1) = [0xFF, 0xFF]"
  using Bitfield_set_then_has [of 9 "[0, 0]"] Bitfield_set_then_has [of 16 "[0xFF, 0xFF]"]
    Bitfield_set_then_has [of "- 1" "[0xFF, 0xFF]"]
  by auto

text \<open>
  The claim as written fails on the spare bits: with \<open>num_pieces = 10\<close> the bitfield has
  two bytes, index 12 is out of range for the pieces, yet \<open>SetPiece\<close> writes the bit and
  \<open>HasPiece\<close> then reads it back as present.
\<close>

theorem Bitfield_spare_bit_counterexample:
  "length [0, 0 :: byte] = (10 + 7) div 8 \<and> \<not> (12 :: int) < 10 \<and>
   SetPiece [0, 0] 12 = [0, 0x08] \<and> SetPiece [0, 0] 12 \<noteq> [0, 0] \<and>
   HasPiece (SetPiece [0, 0] 12) 12"
  by (simp add: SetPiece_def HasPiece_def signed_divide_int_def signed_modulo_int_def)

section \<open>Message framing\<close>

lemma length_PutUint32: "length (PutUint32 v) = 4"
  by (simp add: PutUint32_def)

lemma unat_frame_length:
  assumes "n + 5 < 2 ^ 32"
  shows "unat (4 + (word_of_nat (1 + n) :: uint32)) = n + 5"
proof -
  have "word_of_nat (n + 5) = 4 + (word_of_nat (1 + n) :: uint32)"
    by simp
  from of_nat_inverse [OF this] assms show ?thesis
    by simp
qed

lemma Serialize_frame:
  assumes "Type m \<noteq> MsgKeepAlive" "length (Payload m) + 5 < 2 ^ 32"
  shows "Serialize m =
    Inr (PutUint32 (word_of_nat (1 + length (Payload m))) @ [Type m] @ Payload m)"
proof -
  let ?n = "length (Payload m)"
  let ?h = "PutUint32 (word_of_nat (1 + ?n))"
  let ?b0 = "replicate (unat (4 + (word_of_nat (1 + ?n) :: uint32))) (0::byte)"
  have u: "?b0 = replicate (?n + 5) 0"
    using assms(2) by (simp only: unat_frame_length)
  have a: "copy_at (replicate (?n + 5) (0::byte)) 0 ?h = ?h @ replicate (?n + 1) 0"
    by (simp add: copy_at_def length_PutUint32)
  have b: "(?h @ replicate (?n + 1) 0)[4 := Type m] = ?h @ Type m # replicate ?n 0"
    by (simp add: list_update_append length_PutUint32)
  have c: "copy_at (?h @ Type m # replicate ?n 0) 5 (Payload m) = ?h @ [Type m] @ Payload m"
    by (simp add: copy_at_def length_PutUint32)
  have l0: "\<not> length (replicate (?n + 5) (0::byte)) < 4" by simp
  have l1: "\<not> length (?h @ replicate (?n + 1) (0::byte)) \<le> 4"
    by (simp add: length_PutUint32)
  show ?thesis
    unfolding Serialize_def Let_def u a b c
    using assms(1) l0 l1 by (simp only: if_False)
qed

text \<open>
  Claim C8. A message other than keep-alive whose frame fits a \<^verbatim>\<open>uint32\<close> length
  serializes as the big-endian length \<open>1 + len payload\<close>, the id byte and the payload;
  keep-alive serializes as four zero bytes. A \<^verbatim>\<open>have\<close> for piece 5 (payload: the
  big-endian \<^verbatim>\<open>uint32\<close> 5), a keep-alive, and a request built by \<^verbatim>\<open>FormatRequest\<close> for
  index 3, begin 0, length 16384 give the byte sequences of the specification.
\<close>

theorem Serialize_framing:
  "(Type m \<noteq> MsgKeepAlive \<and> length (Payload m) + 5 < 2 ^ 32 \<longrightarrow>
      Serialize m =
        Inr (PutUint32 (word_of_nat (1 + length (Payload m))) @ [Type m] @ Payload m)) \<and>
   (Type m = MsgKeepAlive \<longrightarrow> Serialize m = Inr [0, 0, 0, 0]) \<and>
   Serialize \<lparr>Type = MsgHave, Payload = [0, 0, 0, 5]\<rparr> =
      Inr [0x00, 0x00, 0x00, 0x05, 0x04, 0x00, 0x00, 0x00, 0x05] \<and>
   Serialize \<lparr>Type = MsgKeepAlive, Payload = []\<rparr> = Inr [0x00, 0x00, 0x00, 0x00] \<and>
   Serialize \<lparr>Type = MsgRequest, Payload = FormatRequest 3 0 16384\<rparr> =
      Inr [0x00, 0x00, 0x00, 0x0D, 0x06, 0x00, 0x00, 0x00, 0x03,
           0x00, 0x00, 0x00, 0x00, 0x00, 0x00, 0x40, 0x00]"
proof (intro conjI impI)
  assume "Type m \<noteq> MsgKeepAlive \<and> length (Payload m) + 5 < 2 ^ 32"
  then show "Serialize m =
      Inr (PutUint32 (word_of_nat (1 + length (Payload m))) @ [Type m] @ Payload m)"
    using Serialize_frame [of m] by blast
next
  assume "Type m = MsgKeepAlive"
  then show "Serialize m = Inr [0, 0, 0, 0]"
    by (simp add: Serialize_def numeral_eq_Suc)
next
  show "Serialize \<lparr>Type = MsgHave, Payload = [0, 0, 0, 5]\<rparr> =
      Inr [0x00, 0x00, 0x00, 0x05, 0x04, 0x00, 0x00, 0x00, 0x05]"
    by code_simp
next
  show "Serialize \<lparr>Type = MsgKeepAlive, Payload = []\<rparr> = Inr [0x00, 0x00, 0x00, 0x00]"
    by code_simp
next
  show "Serialize \<lparr>Type = MsgRequest, Payload = FormatRequest 3 0 16384\<rparr> =
      Inr [0x00, 0x00, 0x00, 0x0D, 0x06, 0x00, 0x00, 0x00, 0x03,
           0x00, 0x00, 0x00, 0x00, 0x00, 0x00, 0x40, 0x00]"
    by code_simp
qed

theorem Serialize_framing_witness:
  "Serialize \<lparr>Type = 7, Payload = [1, 2]\<rparr> = Inr [0, 0, 0, 3, 7, 1, 2] \<and>
   Serialize \<lparr>Type = 255, Payload = [9]\<rparr> = Inr [0, 0, 0, 0]"
  using Serialize_framing [of "\<lparr>Type = 7, Payload = [1, 2]\<rparr>"]
    Serialize_framing [of "\<lparr>Type = 255, Payload = [9]\<rparr>"]
  by (simp add: MsgKeepAlive_def PutUint32_def)

section \<open>Bencode: decoding integers and the empty input\<close>

lemma Decode_int_scan:
  assumes "CHR ''e'' \<notin> set s" "1 \<le> j" "j \<le> 1 + length s"
  shows "Decode_int (c # s @ CHR ''e'' # rest) j =
           (case ParseInt s of
              None \<Rightarrow> Inr (None, length s + 2, None)
            | Some v \<Rightarrow> Inr (Some (INTEGER v), length s + 2, None))"
  using assms
proof (induction "1 + length s - j" arbitrary: j)
  case 0
  then have j: "j = 1 + length s" by simp
  show ?case
    unfolding j by (subst Decode_int.simps) (simp add: nth_append split: option.split)
next
  case (Suc k)
  then have lt: "j - 1 < length s" by simp
  then have "s ! (j - 1) \<in> set s" by simp
  then have ne: "s ! (j - 1) \<noteq> CHR ''e''" using Suc.prems(1) by metis
  have nth: "(c # s @ CHR ''e'' # rest) ! j = s ! (j - 1)"
    using Suc.prems(2) lt by (cases j) (simp_all add: nth_append)
  have inb: "j < length (c # s @ CHR ''e'' # rest)" using lt by simp
  have "Decode_int (c # s @ CHR ''e'' # rest) j = Decode_int (c # s @ CHR ''e'' # rest) (j + 1)"
    by (subst Decode_int.simps) (simp only: inb nth ne if_True if_False)
  also have "\<dots> = (case ParseInt s of
              None \<Rightarrow> Inr (None, length s + 2, None)
            | Some v \<Rightarrow> Inr (Some (INTEGER v), length s + 2, None))"
    using Suc.hyps(2) Suc.prems lt by (intro Suc.hyps(1)) simp_all
  finally show ?case .
qed

lemma Decode_int_unterminated:
  assumes "CHR ''e'' \<notin> set s" "1 \<le> j"
  shows "Decode_int (c # s) j = Inr (Some INVALID, length s + 1, Some InvalidInteger)"
  using assms
proof (induction "1 + length s - j" arbitrary: j)
  case 0
  then show ?case by (subst Decode_int.simps) simp
next
  case (Suc k)
  then have lt: "j - 1 < length s" by simp
  then have "s ! (j - 1) \<in> set s" by simp
  then have ne: "s ! (j - 1) \<noteq> CHR ''e''" using Suc.prems(1) by metis
  have nth: "(c # s) ! j = s ! (j - 1)"
    using Suc.prems(2) by (cases j) simp_all
  have inb: "j < length (c # s)" using lt Suc.prems(2) by simp
  have "Decode_int (c # s) j = Decode_int (c # s) (j + 1)"
    by (subst Decode_int.simps) (simp only: inb nth ne if_True if_False)
  also have "\<dots> = Inr (Some INVALID, length s + 1, Some InvalidInteger)"
    using Suc.hyps(2) Suc.prems lt by (intro Suc.hyps(1)) simp_all
  finally show ?case .
qed

lemma Decode_integer_literal:
  assumes "CHR ''e'' \<notin> set s"
  shows "Decode (CHR ''i'' # s @ CHR ''e'' # rest) spare =
           (case ParseInt s of
              None \<Rightarrow> Inr (None, length s + 2, None)
            | Some v \<Rightarrow> Inr (Some (INTEGER v), length s + 2, None))"
  using Decode_int_scan[OF assms, of 1 "CHR ''i''" rest]
  by (simp add: Decode.simps)

lemma Decode_integer_unterminated:
  assumes "CHR ''e'' \<notin> set s"
  shows "Decode (CHR ''i'' # s) spare = Inr (Some INVALID, length s + 1, Some InvalidInteger)"
  using Decode_int_unterminated[OF assms, of 1 "CHR ''i''"]
  by (simp add: Decode.simps)

text \<open>
  Claim C3, as the code has it. \<^verbatim>\<open>Decode\<close> accepts every integer literal that
  \<^verbatim>\<open>strconv.ParseInt\<close> accepts, that is an optional sign and at least one decimal digit
  with a value in the \<^verbatim>\<open>int64\<close> range, leading zeros and \<^verbatim>\<open>-0\<close> included: it returns
  the integer and the number of bytes read, and no error. So \<^verbatim>\<open>i-0e\<close> decodes to 0 and
  \<^verbatim>\<open>i03e\<close> to 3. An \<^verbatim>\<open>i\<close> that no \<^verbatim>\<open>e\<close> follows is the error "invalid integer".
\<close>

theorem Decode_integer_literals:
  "(CHR ''e'' \<notin> set s \<and> ParseInt s = Some v \<longrightarrow>
      Decode (CHR ''i'' # s @ CHR ''e'' # rest) spare = Inr (Some (INTEGER v), length s + 2, None)) \<and>
   (CHR ''e'' \<notin> set s \<longrightarrow>
      Decode (CHR ''i'' # s) spare = Inr (Some INVALID, length s + 1, Some InvalidInteger)) \<and>
   Decode ''i-0e'' spare = Inr (Some (INTEGER 0), 4, None) \<and>
   Decode ''i03e'' spare = Inr (Some (INTEGER 3), 4, None)"
proof (intro conjI impI)
  assume "CHR ''e'' \<notin> set s \<and> ParseInt s = Some v"
  then show "Decode (CHR ''i'' # s @ CHR ''e'' # rest) spare = Inr (Some (INTEGER v), length s + 2, None)"
    using Decode_integer_literal[of s rest] by simp
next
  assume "CHR ''e'' \<notin> set s"
  then show "Decode (CHR ''i'' # s) spare = Inr (Some INVALID, length s + 1, Some InvalidInteger)"
    by (rule Decode_integer_unterminated)
next
  show "Decode ''i-0e'' spare = Inr (Some (INTEGER 0), 4, None)"
    by code_simp
next
  show "Decode ''i03e'' spare = Inr (Some (INTEGER 3), 4, None)"
    by code_simp
qed

theorem Decode_integer_literals_witness:
  "Decode ''i-042exyz'' [] = Inr (Some (INTEGER (- 42)), 6, None) \<and>
   Decode ''i12'' [] = Inr (Some INVALID, 3, Some InvalidInteger)"
proof -
  have p: "ParseInt ''-042'' = Some (- 42)"
    by code_simp
  have n: "CHR ''e'' \<notin> set ''-042''" "CHR ''e'' \<notin> set ''12''"
    by simp_all
  show ?thesis
    using Decode_integer_literals [of "''-042''" "- 42" "''xyz''"]
      Decode_integer_literals [of "''12''" 0 "[]"] p n
    by simp
qed

text \<open>
  The claim as written fails: \<^verbatim>\<open>i-0e\<close> and \<^verbatim>\<open>i03e\<close> decode without error, and a
  digit sequence that \<^verbatim>\<open>ParseInt\<close> rejects gives a nil result with a nil error.
\<close>

theorem Decode_invalid_integer_counterexample:
  "Decode ''i-0e'' [] = Inr (Some (INTEGER 0), 4, None) \<and>
   Decode ''i03e'' [] = Inr (Some (INTEGER 3), 4, None) \<and>
   Decode ''i4x2e'' [] = Inr (None, 5, None)"
  by code_simp

text \<open>
  Claim C10. \<^verbatim>\<open>Decode\<close> of the empty slice returns a nil value, zero bytes consumed and
  a nil error; the error is nil as it is after a successful decode, here of \<^verbatim>\<open>i42e\<close>.
\<close>

theorem Decode_empty_input:
  "Decode [] spare = Inr (None, 0, None) \<and>
   Decode ''i42e'' spare = Inr (Some (INTEGER 42), 4, None)"
proof
  show "Decode [] spare = Inr (None, 0, None)"
    by (simp add: Decode.simps)
  show "Decode ''i42e'' spare = Inr (Some (INTEGER 42), 4, None)"
    by code_simp
qed

section \<open>Bencode: decimal numerals\<close>

lemma digit_char_literals:
  "digit_char 0 = CHR ''0''" "digit_char 1 = CHR ''1''" "digit_char 2 = CHR ''2''"
  "digit_char 3 = CHR ''3''" "digit_char 4 = CHR ''4''" "digit_char 5 = CHR ''5''"
  "digit_char 6 = CHR ''6''" "digit_char 7 = CHR ''7''" "digit_char 8 = CHR ''8''"
  "digit_char 9 = CHR ''9''"
  by (simp_all add: digit_char_def char_of_def)

lemma digit_char_props:
  assumes "0 \<le> d" "d < 10"
  shows "is_digit (digit_char d)" "digit_val (digit_char d) = d"
    "digit_char d \<noteq> CHR ''e''" "digit_char d \<noteq> CHR '':''" "digit_char d \<noteq> CHR ''-''"
    "digit_char d \<noteq> CHR ''+''" "digit_char d \<noteq> CHR ''i''" "digit_char d \<noteq> CHR ''l''"
    "digit_char d \<noteq> CHR ''d''"
proof -
  have "d = 0 \<or> d = 1 \<or> d = 2 \<or> d = 3 \<or> d = 4 \<or> d = 5 \<or> d = 6 \<or> d = 7 \<or> d = 8 \<or> d = 9"
    using assms by arith
  then show "is_digit (digit_char d)" "digit_val (digit_char d) = d"
    "digit_char d \<noteq> CHR ''e''" "digit_char d \<noteq> CHR '':''" "digit_char d \<noteq> CHR ''-''"
    "digit_char d \<noteq> CHR ''+''" "digit_char d \<noteq> CHR ''i''" "digit_char d \<noteq> CHR ''l''"
    "digit_char d \<noteq> CHR ''d''"
    by (auto simp: digit_char_literals is_digit_def digit_val_def less_eq_char_def)
qed

text \<open>A decimal numeral: digits only, at least one, no leading zero unless it is 0.\<close>

lemma dec_digits_nonempty: "dec_digits n \<noteq> []"
  by (subst dec_digits.simps) simp

lemma dec_digits_digits: "0 \<le> n \<Longrightarrow> c \<in> set (dec_digits n) \<Longrightarrow> (\<exists>d. 0 \<le> d \<and> d < 10 \<and> c = digit_char d)"
proof (induction n rule: dec_digits.induct)
  case (1 n)
  show ?case
  proof (cases "n < 10")
    case True
    then show ?thesis using 1(2,3) by (subst (asm) dec_digits.simps) auto
  next
    case False
    then have "c \<in> set (dec_digits (n div 10)) \<or> c = digit_char (n mod 10)"
      using 1(3) by (subst (asm) dec_digits.simps) auto
    then show ?thesis
    proof
      assume "c \<in> set (dec_digits (n div 10))"
      then show ?thesis using 1(1)[OF False] 1(2) by simp
    next
      assume "c = digit_char (n mod 10)"
      then show ?thesis by (intro exI[of _ "n mod 10"]) simp
    qed
  qed
qed

lemma parse_digits_append:
  "parse_digits a (xs @ ys) = (case parse_digits a xs of None \<Rightarrow> None | Some b \<Rightarrow> parse_digits b ys)"
  by (induction xs arbitrary: a) auto

lemma parse_digits_dec: "0 \<le> n \<Longrightarrow> parse_digits 0 (dec_digits n) = Some n"
proof (induction n rule: dec_digits.induct)
  case (1 n)
  show ?case
  proof (cases "n < 10")
    case True
    then show ?thesis using 1(2) by (subst dec_digits.simps) (simp add: digit_char_props)
  next
    case False
    have "parse_digits 0 (dec_digits (n div 10)) = Some (n div 10)"
      using 1(1)[OF False] 1(2) by simp
    then show ?thesis using False
      by (subst dec_digits.simps) (simp add: parse_digits_append digit_char_props)
  qed
qed

lemma hd_dec_digits: "0 \<le> n \<Longrightarrow> \<exists>d. 0 \<le> d \<and> d < 10 \<and> hd (dec_digits n) = digit_char d"
  using dec_digits_digits[of n "hd (dec_digits n)"] dec_digits_nonempty[of n] by simp

lemma ParseInt_dec_digits:
  assumes "0 \<le> n" "n < 2 ^ 63"
  shows "ParseInt (dec_digits n) = Some n"
proof -
  obtain d where d: "0 \<le> d" "d < 10" "hd (dec_digits n) = digit_char d"
    using hd_dec_digits[OF assms(1)] by blast
  then have "hd (dec_digits n) \<noteq> CHR ''-''" "hd (dec_digits n) \<noteq> CHR ''+''"
    by (simp_all add: digit_char_props)
  then show ?thesis
    using assms by (simp add: ParseInt_def dec_digits_nonempty parse_digits_dec)
qed

lemma ParseInt_Sprintf_d:
  assumes "- (2 ^ 63) \<le> v" "v < 2 ^ 63"
  shows "ParseInt (Sprintf_d v) = Some v"
proof (cases "v < 0")
  case True
  then show ?thesis
    using assms by (simp add: Sprintf_d_def ParseInt_def dec_digits_nonempty parse_digits_dec)
next
  case False
  then show ?thesis using assms by (simp add: Sprintf_d_def ParseInt_dec_digits)
qed

lemma dec_digits_no_delims:
  assumes "0 \<le> n"
  shows "CHR ''e'' \<notin> set (dec_digits n)" "CHR '':'' \<notin> set (dec_digits n)" "CHR ''-'' \<notin> set (dec_digits n)"
  using dec_digits_digits[OF assms] digit_char_props(3,4,5) by metis+

lemma Sprintf_d_no_e: "CHR ''e'' \<notin> set (Sprintf_d v)"
  using dec_digits_no_delims(1)[of v] dec_digits_no_delims(1)[of "- v"]
  by (auto simp: Sprintf_d_def)

section \<open>Bencode: decoding the encoding of a canonical value\<close>

lemma Decode_string_scan:
  assumes "CHR '':'' \<notin> set p" "j \<le> length p"
  shows "Decode_string (p @ CHR '':'' # body) spare j =
           (case Atoi p of
              None \<Rightarrow> Inr (None, length p + 1, Some InvalidStringLength)
            | Some n \<Rightarrow>
                if n < 0 then Inl SliceBoundsOutOfRange
                else if n \<le> int (length body)
                then Inr (Some (STRING (take (nat n) body)), length p + 1 + nat n, None)
                else if n \<le> int (length body + length spare)
                then Inr (Some (STRING (take (nat n) (body @ spare))), length p + 1 + nat n, None)
                else Inl SliceBoundsOutOfRange)"
  using assms
proof (induction "length p - j" arbitrary: j)
  case 0
  then have j: "j = length p" by simp
  show ?case
    unfolding j by (subst Decode_string.simps) (auto simp: nth_append split: option.split)
next
  case (Suc k)
  then have lt: "j < length p" by simp
  then have "p ! j \<in> set p" by simp
  then have ne: "p ! j \<noteq> CHR '':''" using Suc.prems(1) by metis
  have nth: "(p @ CHR '':'' # body) ! j = p ! j"
    using lt by (simp add: nth_append)
  have inb: "j < length (p @ CHR '':'' # body)" using lt by simp
  have "Decode_string (p @ CHR '':'' # body) spare j = Decode_string (p @ CHR '':'' # body) spare (j + 1)"
    by (subst Decode_string.simps) (simp only: inb nth ne if_True if_False)
  also have "\<dots> = (case Atoi p of
              None \<Rightarrow> Inr (None, length p + 1, Some InvalidStringLength)
            | Some n \<Rightarrow>
                if n < 0 then Inl SliceBoundsOutOfRange
                else if n \<le> int (length body)
                then Inr (Some (STRING (take (nat n) body)), length p + 1 + nat n, None)
                else if n \<le> int (length body + length spare)
                then Inr (Some (STRING (take (nat n) (body @ spare))), length p + 1 + nat n, None)
                else Inl SliceBoundsOutOfRange)"
    using Suc.hyps(2) Suc.prems lt by (intro Suc.hyps(1)) simp_all
  finally show ?case .
qed

lemma string_encoding_eq: "string_encoding s = dec_digits (int (length s)) @ CHR '':'' # s"
  by (simp add: string_encoding_def Sprintf_d_def)

lemma hd_string_encoding:
  "\<exists>d. 0 \<le> d \<and> d < 10 \<and> hd (string_encoding s @ rest) = digit_char d"
  using hd_dec_digits[of "int (length s)"]
  by (simp add: string_encoding_eq dec_digits_nonempty)

lemma Decode_string_encoding:
  assumes "int (length s) < 2 ^ 63"
  shows "Decode (string_encoding s @ rest) spare =
           Inr (Some (STRING s), length (string_encoding s), None)"
proof -
  let ?p = "dec_digits (int (length s))"
  let ?c = "?p @ CHR '':'' # (s @ rest)"
  have c: "string_encoding s @ rest = ?c" by (simp add: string_encoding_eq)
  obtain d where d: "0 \<le> d" "d < 10" "hd ?c = digit_char d"
    using hd_string_encoding[of s rest] unfolding c by blast
  have ne: "?c \<noteq> []" by simp
  have h0: "?c ! 0 = digit_char d" using d(3) ne by (simp add: hd_conv_nth)
  have "Decode ?c spare = Decode_string ?c spare 0"
    by (subst Decode.simps) (simp add: h0 digit_char_props[OF d(1,2)] del: nth_append_length)
  also have "\<dots> = Inr (Some (STRING s), length ?p + 1 + length s, None)"
    using assms
    by (subst Decode_string_scan)
       (simp_all add: dec_digits_no_delims Atoi_def ParseInt_dec_digits)
  finally show ?thesis by (simp add: c string_encoding_eq)
qed


lemma Decode_list_items:
  assumes "\<forall>x \<in> set xs. \<exists>d. x = Some d \<and> decodes_back d"
  shows "Decode_list (pre @ concat (map bencoding_opt xs) @ CHR ''e'' # rest) spare (length pre) acc =
           Inr (Some (LIST (acc @ xs)), length pre + length (concat (map bencoding_opt xs)) + 1, None)"
  using assms
proof (induction xs arbitrary: pre acc)
  case Nil
  show ?case by (subst Decode_list.simps) simp
next
  case (Cons x xs)
  then obtain d where x: "x = Some d" and d: "decodes_back d" by auto
  let ?b = "bencoding d"
  let ?tl = "concat (map bencoding_opt xs) @ CHR ''e'' # rest"
  let ?c = "pre @ ?b @ ?tl"
  have c: "pre @ concat (map bencoding_opt (x # xs)) @ CHR ''e'' # rest = ?c"
    by (simp add: x)
  have ne: "?b \<noteq> []" and hd: "hd ?b \<noteq> CHR ''e''"
    and dec: "Decode (?b @ ?tl) spare = Inr (Some d, length ?b, None)"
    using d by (simp_all add: decodes_back_def)
  have inb: "length pre < length ?c" using ne by simp
  have nth: "?c ! length pre = hd ?b" using ne by (simp add: nth_append hd_conv_nth)
  have dr: "drop (length pre) ?c = ?b @ ?tl" by simp
  have adv: "length pre + length ?b - 1 + 1 = length (pre @ ?b)" using ne by (cases ?b) simp_all
  have "Decode_list ?c spare (length pre) acc = Decode_list ?c spare (length (pre @ ?b)) (acc @ [Some d])"
    by (subst Decode_list.simps) (simp only: inb nth hd dr dec adv if_True if_False sum.case prod.case option.case)
  also have "\<dots> = Inr (Some (LIST ((acc @ [Some d]) @ xs)),
                  length (pre @ ?b) + length (concat (map bencoding_opt xs)) + 1, None)"
    using Cons.IH[of "pre @ ?b" "acc @ [Some d]"] Cons.prems by simp
  finally show ?case unfolding c by (simp add: x)
qed

lemma Decode_dict_items:
  assumes "\<forall>(k, v) \<in> set kvs. int (length k) < 2 ^ 63 \<and> (\<exists>d. v = Some d \<and> decodes_back d)"
    and "distinct (map fst (acc @ kvs))"
  shows "Decode_dict (pre @ concat (map (\<lambda>(k, v). string_encoding k @ bencoding_opt v) kvs) @ CHR ''e'' # rest) spare
            (length pre) acc =
           Inr (Some (DICT (acc @ kvs)),
                length pre + length (concat (map (\<lambda>(k, v). string_encoding k @ bencoding_opt v) kvs)) + 1,
                None)"
  using assms
proof (induction kvs arbitrary: pre acc)
  case Nil
  show ?case by (subst Decode_dict.simps) simp
next
  case (Cons kv kvs)
  obtain k v where kv: "kv = (k, v)" by (cases kv)
  from Cons.prems(1) kv obtain d where klen: "int (length k) < 2 ^ 63"
    and v: "v = Some d" and d: "decodes_back d" by auto
  let ?e = "\<lambda>(k, v). string_encoding k @ bencoding_opt v"
  let ?kb = "string_encoding k"
  let ?b = "bencoding d"
  let ?tl = "concat (map ?e kvs) @ CHR ''e'' # rest"
  let ?c = "pre @ ?kb @ ?b @ ?tl"
  have c: "pre @ concat (map ?e (kv # kvs)) @ CHR ''e'' # rest = ?c"
    by (simp add: kv v)
  have kne: "?kb \<noteq> []" by (simp add: string_encoding_eq)
  obtain dg where dg: "0 \<le> dg" "dg < 10" "hd (?kb @ ?b @ ?tl) = digit_char dg"
    using hd_string_encoding[of k "?b @ ?tl"] by blast
  have khd: "hd ?kb \<noteq> CHR ''e''" using dg kne by (simp add: digit_char_props)
  have kdec: "Decode (?kb @ ?b @ ?tl) spare = Inr (Some (STRING k), length ?kb, None)"
    using klen by (rule Decode_string_encoding)
  have ne: "?b \<noteq> []" and hd: "hd ?b \<noteq> CHR ''e''"
    and dec: "Decode (?b @ ?tl) spare = Inr (Some d, length ?b, None)"
    using d by (simp_all add: decodes_back_def)
  have inb: "length pre < length ?c" using kne by simp
  have nth: "?c ! length pre = hd ?kb" using kne by (simp add: nth_append hd_conv_nth)
  have dr: "drop (length pre) ?c = ?kb @ ?b @ ?tl" by simp
  have inb2: "\<not> length ?c < length pre + length ?kb" by simp
  have dr2: "drop (length pre + length ?kb) ?c = ?b @ ?tl" by simp
  have adv: "length pre + length ?kb + length ?b - 1 + 1 = length (pre @ ?kb @ ?b)"
    using ne by (cases ?b) simp_all
  have fresh: "k \<notin> fst ` set acc" using Cons.prems(2) kv by auto
  have upd: "AList.update k (Some d) acc = acc @ [(k, Some d)]"
    using fresh by (induction acc) auto
  have "Decode_dict ?c spare (length pre) acc =
          Decode_dict ?c spare (length (pre @ ?kb @ ?b)) (acc @ [(k, Some d)])"
    by (subst Decode_dict.simps)
       (simp only: inb nth khd dr kdec inb2 dr2 dec adv upd if_True if_False sum.case prod.case
          option.case is_STRING.simps STRING_value.simps not_not not_True_eq_False)
  also have "\<dots> = Inr (Some (DICT ((acc @ [(k, Some d)]) @ kvs)),
                  length (pre @ ?kb @ ?b) + length (concat (map ?e kvs)) + 1, None)"
  proof -
    have "distinct (map fst ((acc @ [(k, Some d)]) @ kvs))"
      using Cons.prems(2) kv v by simp
    then show ?thesis
      using Cons.IH[of "acc @ [(k, Some d)]" "pre @ ?kb @ ?b"] Cons.prems(1) by simp
  qed
  finally show ?case unfolding c by (simp add: kv v)
qed


lemma canonical_decodes_back: "canonical d \<Longrightarrow> decodes_back d"
proof (induction d)
  case (STRING s)
  obtain dg where dg: "0 \<le> dg" "dg < 10" "hd (string_encoding s @ []) = digit_char dg"
    using hd_string_encoding[of s "[]"] by blast
  have "string_encoding s \<noteq> []" by (simp add: string_encoding_eq)
  moreover have "hd (string_encoding s) \<noteq> CHR ''e''" using dg by (simp add: digit_char_props)
  ultimately show ?case
    using STRING by (simp add: decodes_back_def Decode_string_encoding)
next
  case (INTEGER v)
  have "\<And>rest spare. Decode (CHR ''i'' # Sprintf_d v @ CHR ''e'' # rest) spare =
          Inr (Some (INTEGER v), length (Sprintf_d v) + 2, None)"
    using INTEGER by (subst Decode_integer_literal) (simp_all add: Sprintf_d_no_e ParseInt_Sprintf_d)
  then show ?case by (simp add: decodes_back_def)
next
  case (LIST xs)
  have items: "\<forall>x \<in> set xs. \<exists>d. x = Some d \<and> decodes_back d"
  proof
    fix x assume x: "x \<in> set xs"
    then have "case x of None \<Rightarrow> False | Some d \<Rightarrow> canonical d"
      using LIST.prems by (simp add: list_all_iff)
    then obtain d where d: "x = Some d" "canonical d"
      by (auto split: option.splits)
    then have "decodes_back d" using LIST.IH[of x d] x by simp
    then show "\<exists>d. x = Some d \<and> decodes_back d" using d by blast
  qed
  have "\<And>rest spare. Decode (bencoding (LIST xs) @ rest) spare =
          Inr (Some (LIST xs), length (bencoding (LIST xs)), None)"
  proof -
    fix rest spare
    have "Decode (bencoding (LIST xs) @ rest) spare =
            Decode_list (''l'' @ concat (map bencoding_opt xs) @ CHR ''e'' # rest) spare (length ''l'') []"
      by (subst Decode.simps) simp
    also have "\<dots> = Inr (Some (LIST ([] @ xs)),
                      length ''l'' + length (concat (map bencoding_opt xs)) + 1, None)"
      using items by (rule Decode_list_items)
    finally show "Decode (bencoding (LIST xs) @ rest) spare =
          Inr (Some (LIST xs), length (bencoding (LIST xs)), None)" by simp
  qed
  then show ?case by (simp add: decodes_back_def)
next
  case (DICT kvs)
  let ?e = "\<lambda>(k, v). string_encoding k @ bencoding_opt v"
  have items: "\<forall>(k, v) \<in> set kvs. int (length k) < 2 ^ 63 \<and> (\<exists>d. v = Some d \<and> decodes_back d)"
  proof (clarify, rule conjI)
    fix k v assume kv: "(k, v) \<in> set kvs"
    then show "int (length k) < 2 ^ 63" using DICT.prems by (auto simp: list_all_iff)
    from kv have "case v of None \<Rightarrow> False | Some d \<Rightarrow> canonical d"
      using DICT.prems by (auto simp: list_all_iff)
    then obtain d where d: "v = Some d" "canonical d"
      by (auto split: option.splits)
    then have "decodes_back d" using DICT.IH[of "(k, v)" v d] kv by simp
    then show "\<exists>d. v = Some d \<and> decodes_back d" using d by blast
  qed
  have dist: "distinct (map fst ([] @ kvs))"
    using DICT.prems by (simp add: strict_sorted_iff)
  have "\<And>rest spare. Decode (bencoding (DICT kvs) @ rest) spare =
          Inr (Some (DICT kvs), length (bencoding (DICT kvs)), None)"
  proof -
    fix rest spare
    have "Decode (bencoding (DICT kvs) @ rest) spare =
            Decode_dict (''d'' @ concat (map ?e kvs) @ CHR ''e'' # rest) spare (length ''d'') []"
      by (subst Decode.simps) simp
    also have "\<dots> = Inr (Some (DICT ([] @ kvs)),
                      length ''d'' + length (concat (map ?e kvs)) + 1, None)"
      using items dist by (rule Decode_dict_items)
    finally show "Decode (bencoding (DICT kvs) @ rest) spare =
          Inr (Some (DICT kvs), length (bencoding (DICT kvs)), None)" by simp
  qed
  then show ?case by (simp add: decodes_back_def)
next
  case INVALID
  then show ?case by simp
qed

lemma Decode_bencoding:
  "canonical d \<Longrightarrow> Decode (bencoding d @ rest) spare = Inr (Some d, length (bencoding d), None)"
  using canonical_decodes_back[of d] by (simp add: decodes_back_def)

section \<open>Bencode: encoding\<close>

lemma append_all_Inr: "append_all acc (map Inr bs) = Inr (acc @ concat bs)"
  by (induction bs arbitrary: acc) simp_all

lemma map_index_distinct:
  assumes "distinct (map fst kvs)" "(k, v) \<in> set kvs"
  shows "map_index kvs k = v"
  using assms by (simp add: map_index_def)

lemma canonical_Encode: "canonical d \<Longrightarrow> Encode (Some d) = Inr (bencoding d)"
proof (induction d)
  case (STRING s)
  show ?case by (simp add: string_encoding_def)
next
  case (INTEGER v)
  show ?case by simp
next
  case (LIST xs)
  have m: "map Encode xs = map Inr (map bencoding_opt xs)"
  proof (simp, intro ballI)
    fix x assume x: "x \<in> set xs"
    then have "case x of None \<Rightarrow> False | Some d \<Rightarrow> canonical d"
      using LIST.prems by (simp add: list_all_iff)
    then obtain d where d: "x = Some d" "canonical d"
      by (auto split: option.splits)
    then show "Encode x = Inr (bencoding_opt x)" using LIST.IH[of x d] x by simp
  qed
  show ?case by (simp only: Encode.simps(4) m append_all_Inr) simp
next
  case (DICT kvs)
  have dist: "distinct (map fst kvs)" and srt: "sorted (map fst kvs)"
    using DICT.prems by (simp_all add: strict_sorted_iff)
  have keys: "sort (remdups (map fst kvs)) = map fst kvs"
    using dist srt by (simp add: sort_key_id_if_sorted)
  have m: "concat (map (\<lambda>key. [Encode (Some (STRING key)), Encode (map_index kvs key)]) (map fst kvs))
          = map Inr (concat (map (\<lambda>(k, v). [string_encoding k, bencoding_opt v]) kvs))"
  proof -
    have "\<And>kv. kv \<in> set kvs \<Longrightarrow>
            [Encode (Some (STRING (fst kv))), Encode (map_index kvs (fst kv))]
              = map Inr (case kv of (k, v) \<Rightarrow> [string_encoding k, bencoding_opt v])"
    proof -
      fix kv assume m: "kv \<in> set kvs"
      obtain k v where kv: "kv = (k, v)" by (cases kv)
      from m kv have "case v of None \<Rightarrow> False | Some d \<Rightarrow> canonical d"
        using DICT.prems by (auto simp: list_all_iff)
      then obtain d where d: "v = Some d" "canonical d"
        by (auto split: option.splits)
      have "Encode v = Inr (bencoding_opt v)" using DICT.IH[of kv v d] m kv d by simp
      moreover have "map_index kvs k = v" using map_index_distinct[OF dist] m kv by simp
      ultimately show "[Encode (Some (STRING (fst kv))), Encode (map_index kvs (fst kv))]
              = map Inr (case kv of (k, v) \<Rightarrow> [string_encoding k, bencoding_opt v])"
        by (simp add: kv string_encoding_def)
    qed
    then show ?thesis by (simp add: map_concat comp_def cong: map_cong)
  qed
  have c: "concat (concat (map (\<lambda>(k, v). [string_encoding k, bencoding_opt v]) kvs))
                   = concat (map (\<lambda>(k, v). string_encoding k @ bencoding_opt v) kvs)"
    by (induction kvs) auto
  show ?case by (simp only: Encode.simps(5) Let_def keys m append_all_Inr c) simp
next
  case INVALID
  then show ?case by simp
qed

lemma Encode_map_of_cong:
  assumes "map_of dict = map_of dict'"
  shows "Encode (Some (DICT dict)) = Encode (Some (DICT dict'))"
proof -
  have "set (map fst dict) = set (map fst dict')"
    using assms by (metis dom_map_of_conv_image_fst set_map)
  then have "sort (remdups (map fst dict)) = sort (remdups (map fst dict'))"
    by (metis sorted_list_of_set_sort_remdups)
  moreover have "map_index dict = map_index dict'"
    using assms by (simp add: map_index_def fun_eq_iff)
  ultimately show ?thesis by simp
qed

lemma fst_map_values: "map fst (map (\<lambda>(k, v). (k, f v)) kvs) = map fst kvs"
  by (induction kvs) auto

lemma map_of_map_values:
  "map_of (map (\<lambda>(k, v). (k, f v)) kvs) k = map_option f (map_of kvs k)"
  by (induction kvs) auto

lemma concat_pairs:
  "concat (concat (map (\<lambda>k. [f k, g k]) ks)) = concat (map (\<lambda>k. f k @ g k) ks)"
  by (induction ks) auto

lemma bencoding_sorted_entries:
  "bencoding (DICT (sorted_entries kvs)) =
     ''d'' @ concat (map (\<lambda>k. string_encoding k @ bencoding_opt (map_index kvs k))
                       (sort (remdups (map fst kvs)))) @ ''e''"
  apply (simp add: sorted_entries_def comp_def map_index_def)
  done

lemma nil_free_Encode: "nil_free d \<Longrightarrow> Encode (Some d) = Inr (bencoding (normalise d))"
proof (induction d)
  case (STRING s)
  show ?case by (simp add: string_encoding_def)
next
  case (INTEGER v)
  show ?case by simp
next
  case (LIST xs)
  have e: "Encode x = Inr (bencoding_opt (map_option normalise x))" if x: "x \<in> set xs" for x
  proof -
    from x have "case x of None \<Rightarrow> False | Some d \<Rightarrow> nil_free d"
      using LIST.prems by (simp add: list_all_iff)
    then obtain d where d: "x = Some d" "nil_free d"
      by (auto split: option.splits)
    then show ?thesis using LIST.IH[of x d] x by simp
  qed
  have m: "map Encode xs = map Inr (map bencoding_opt (map (map_option normalise) xs))"
    unfolding map_map by (rule map_cong) (simp_all add: e)
  show ?case by (simp only: Encode.simps(4) normalise.simps bencoding.simps m append_all_Inr) simp
next
  case (DICT kvs)
  let ?kvs' = "map (\<lambda>(k, v). (k, map_option normalise v)) kvs"
  let ?keys = "sort (remdups (map fst kvs))"
  have e: "Encode (map_index kvs key) = Inr (bencoding_opt (map_index ?kvs' key))"
    if "key \<in> set ?keys" for key
  proof -
    from that have "key \<in> fst ` set kvs" by simp
    then obtain v where v: "map_of kvs key = Some v"
      by (metis domD dom_map_of_conv_image_fst)
    then have m: "(key, v) \<in> set kvs" by (rule map_of_SomeD)
    then have "case v of None \<Rightarrow> False | Some d \<Rightarrow> nil_free d"
      using DICT.prems by (auto simp: list_all_iff)
    then obtain d where d: "v = Some d" "nil_free d"
      by (auto split: option.splits)
    have "Encode v = Inr (bencoding_opt (map_option normalise v))"
      using DICT.IH[of "(key, v)" v d] m d by simp
    then show ?thesis using v by (simp add: map_index_def map_of_map_values)
  qed
  have "map (\<lambda>key. [Encode (Some (STRING key)), Encode (map_index kvs key)]) ?keys
          = map (\<lambda>k. map Inr [string_encoding k, bencoding_opt (map_index ?kvs' k)]) ?keys"
    by (rule map_cong) (simp_all add: e string_encoding_def del: set_sort set_remdups)
  then have m: "concat (map (\<lambda>key. [Encode (Some (STRING key)), Encode (map_index kvs key)]) ?keys)
          = map Inr (concat (map (\<lambda>k. [string_encoding k, bencoding_opt (map_index ?kvs' k)]) ?keys))"
    by (simp only: map_concat map_map comp_def)
  have b: "bencoding (normalise (DICT kvs)) =
     ''d'' @ concat (map (\<lambda>k. string_encoding k @ bencoding_opt (map_index ?kvs' k)) ?keys) @ ''e''"
    by (simp only: normalise.simps bencoding_sorted_entries fst_map_values)
  show ?case by (simp only: Encode.simps(5) Let_def m append_all_Inr concat_pairs b) simp
next
  case INVALID
  then show ?case by simp
qed

lemma sorted_entries_keys: "map fst (sorted_entries kvs) = sort (remdups (map fst kvs))"
  by (simp add: sorted_entries_def comp_def)

lemma map_of_sorted_entries: "map_of (sorted_entries kvs) = map_of kvs"
proof
  fix k
  show "map_of (sorted_entries kvs) k = map_of kvs k"
  proof (cases "map_of kvs k")
    case None
    then have "k \<notin> fst ` set kvs" by (simp add: map_of_eq_None_iff)
    then have "k \<notin> fst ` set (sorted_entries kvs)"
      using sorted_entries_keys[of kvs] by (metis set_map set_remdups set_sort)
    then have "map_of (sorted_entries kvs) k = None"
      by (rule map_of_eq_None_iff[THEN iffD2])
    then show ?thesis using None by simp
  next
    case (Some v)
    then have "k \<in> set (sort (remdups (map fst kvs)))"
      by (auto dest: map_of_SomeD simp: image_iff intro: bexI[of _ "(k, v)"])
    then have "map_of (sorted_entries kvs) k = Some (case map_of kvs k of Some v \<Rightarrow> v | None \<Rightarrow> None)"
      unfolding sorted_entries_def by (simp only: map_of_map_restrict restrict_map_def) simp
    then show ?thesis using Some by simp
  qed
qed

lemma sorted_entries_member:
  "(k, v) \<in> set (sorted_entries kvs) \<Longrightarrow> (k, v) \<in> set kvs"
proof -
  assume "(k, v) \<in> set (sorted_entries kvs)"
  then have k: "k \<in> fst ` set kvs"
    and v: "v = (case map_of kvs k of Some v \<Rightarrow> v | None \<Rightarrow> None)"
    by (auto simp: sorted_entries_def)
  from k obtain v' where v': "map_of kvs k = Some v'"
    by (metis domD dom_map_of_conv_image_fst)
  then have "(k, v') \<in> set kvs" by (rule map_of_SomeD)
  then show ?thesis using v v' by simp
qed

lemma keys_ascending_normalise: "keys_ascending (normalise d)"
proof (induction d)
  case (LIST xs)
  have "keys_ascending (normalise d)" if "Some d \<in> set xs" for d
    using LIST.IH[of "Some d" d] that by simp
  then show ?case by (auto simp add: list_all_iff comp_def split: option.split)
next
  case (DICT kvs)
  let ?kvs' = "map (\<lambda>(k, v). (k, map_option normalise v)) kvs"
  have s: "sorted_wrt (<) (map fst (sorted_entries ?kvs'))"
    by (simp add: sorted_entries_keys strict_sorted_iff)
  have v: "case v of None \<Rightarrow> True | Some d \<Rightarrow> keys_ascending d"
    if "(k, v) \<in> set (sorted_entries ?kvs')" for k v
  proof -
    from sorted_entries_member[OF that] have "(k, v) \<in> set ?kvs'" by auto
    then obtain v0 where v0: "(k, v0) \<in> set kvs" "v = map_option normalise v0" by auto
    then show ?thesis using DICT.IH[of "(k, v0)" v0] by (cases v0) auto
  qed
  show ?case using s v by (auto simp: list_all_iff)
qed simp_all

lemma sorted_entries_id:
  assumes "sorted_wrt (<) (map fst kvs)"
  shows "sorted_entries kvs = kvs"
proof -
  have dist: "distinct (map fst kvs)" and srt: "sorted (map fst kvs)"
    using assms by (simp_all add: strict_sorted_iff)
  have keys: "sort (remdups (map fst kvs)) = map fst kvs"
    using dist srt by (simp add: sort_key_id_if_sorted)
  have "map (\<lambda>kv. (fst kv, case map_of kvs (fst kv) of Some v \<Rightarrow> v | None \<Rightarrow> None)) kvs = map (\<lambda>kv. kv) kvs"
    by (rule map_cong) (use dist in \<open>auto\<close>)
  then show ?thesis by (simp add: sorted_entries_def keys comp_def)
qed

lemma canonical_normalise: "canonical d \<Longrightarrow> normalise d = d"
proof (induction d)
  case (LIST xs)
  have "map (map_option normalise) xs = map (\<lambda>x. x) xs"
  proof (rule map_cong)
    fix x assume x: "x \<in> set xs"
    then have "case x of None \<Rightarrow> False | Some d \<Rightarrow> canonical d"
      using LIST.prems by (simp add: list_all_iff)
    then show "map_option normalise x = x" using LIST.IH[of x] x by (cases x) auto
  qed simp
  then show ?case by simp
next
  case (DICT kvs)
  have "map (\<lambda>(k, v). (k, map_option normalise v)) kvs = map (\<lambda>kv. kv) kvs"
  proof (rule map_cong)
    fix kv assume m: "kv \<in> set kvs"
    obtain k v where kv: "kv = (k, v)" by (cases kv)
    from m kv have "case v of None \<Rightarrow> False | Some d \<Rightarrow> canonical d"
      using DICT.prems by (auto simp: list_all_iff)
    then have "map_option normalise v = v" using DICT.IH[of kv v] m kv by (cases v) auto
    then show "(case kv of (k, v) \<Rightarrow> (k, map_option normalise v)) = kv" by (simp add: kv)
  qed simp
  moreover have "sorted_entries kvs = kvs" using DICT.prems by (simp add: sorted_entries_id)
  ultimately show ?case by simp
qed simp_all

lemma hd_dec_digits_zero: "0 \<le> n \<Longrightarrow> hd (dec_digits n) = CHR ''0'' \<Longrightarrow> n = 0"
proof (induction n rule: dec_digits.induct)
  case (1 n)
  show ?case
  proof (cases "n < 10")
    case True
    then have "digit_char n = CHR ''0''" using 1(3) by (subst (asm) dec_digits.simps) simp
    moreover have "n = 0 \<or> n = 1 \<or> n = 2 \<or> n = 3 \<or> n = 4 \<or> n = 5 \<or> n = 6 \<or> n = 7 \<or> n = 8 \<or> n = 9"
      using True 1(2) by arith
    ultimately show ?thesis by (auto simp: digit_char_literals)
  next
    case False
    then have "hd (dec_digits (n div 10)) = CHR ''0''"
      using 1(3) by (subst (asm) dec_digits.simps) (simp add: dec_digits_nonempty)
    then have "n div 10 = 0" using 1(1)[OF False] 1(2) by simp
    then show ?thesis using False 1(2) by simp
  qed
qed

lemma dec_digits_all_digits: "0 \<le> n \<Longrightarrow> list_all is_digit (dec_digits n)"
  using dec_digits_digits[of n] digit_char_props(1) by (fastforce simp: list_all_iff)

lemma minimal_numeral_Sprintf_d: "minimal_numeral (Sprintf_d v)"
proof (cases "v < 0")
  case True
  then have "hd (dec_digits (- v)) \<noteq> CHR ''0''" using hd_dec_digits_zero[of "- v"] by auto
  then show ?thesis
    using True by (simp add: minimal_numeral_def Sprintf_d_def dec_digits_nonempty dec_digits_all_digits)
next
  case False
  obtain d where d: "0 \<le> d" "d < 10" "hd (dec_digits v) = digit_char d"
    using hd_dec_digits[of v] False by auto
  have "hd (dec_digits v) = CHR ''0'' \<Longrightarrow> dec_digits v = ''0''"
    using hd_dec_digits_zero[of v] False
    by (auto simp: dec_digits.simps[of 0] digit_char_literals)
  then show ?thesis
    using False d
    by (auto simp add: minimal_numeral_def Sprintf_d_def dec_digits_nonempty dec_digits_all_digits
        digit_char_props)
qed

text \<open>
  Claim C4. For every canonical value \<open>d\<close> (so for every well-formed canonical input
  \<open>bencoding d\<close>) \<^verbatim>\<open>Decode\<close> returns \<open>d\<close>, having consumed the whole input, and
  \<^verbatim>\<open>Encode\<close> of \<open>d\<close> is the input again. \<^verbatim>\<open>Encode\<close> always writes the keys in sorted
  order: for every value without a nil pointer, canonical or not, its output is the
  encoding of the normalised value, in which every dictionary at every depth lists
  its keys in strictly ascending order; normalising keeps the map of every
  dictionary and leaves a canonical value as it is. So \<^verbatim>\<open>Encode\<close> does not depend on
  the order in which a map enumerates its keys: whatever association list stands for
  the map of a canonical dictionary, the output is its encoding with the keys
  ascending. Integers are written as \<^verbatim>\<open>%d\<close> writes them, without redundant sign or
  leading zeros.
\<close>

theorem Encode_Decode_canonical:
  "(canonical d \<longrightarrow>
      Decode (bencoding d) spare = Inr (Some d, length (bencoding d), None) \<and>
      Encode (Some d) = Inr (bencoding d)) \<and>
   (nil_free d \<longrightarrow>
      Encode (Some d) = Inr (bencoding (normalise d)) \<and> keys_ascending (normalise d)) \<and>
   (canonical d \<longrightarrow> normalise d = d) \<and>
   map_of (sorted_entries dict) = map_of dict \<and>
   (canonical (DICT kvs) \<and> map_of dict = map_of kvs \<longrightarrow>
      Encode (Some (DICT dict)) = Inr (bencoding (DICT kvs))) \<and>
   Encode (Some (INTEGER v)) = Inr (''i'' @ Sprintf_d v @ ''e'') \<and>
   minimal_numeral (Sprintf_d v) \<and>
   Encode (Some (DICT [(''spam'', Some (STRING ''eggs'')), (''cow'', Some (STRING ''moo''))])) =
     Inr ''d3:cow3:moo4:spam4:eggse'' \<and>
   Encode (Some (DICT
     [(''b'', Some (DICT [(''z'', Some (INTEGER 1)), (''y'', Some (INTEGER 2))])),
      (''a'', Some (LIST [Some (DICT [(''q'', Some (STRING [])),
                                      (''p'', Some (STRING ''x''))])]))])) =
     Inr ''d1:ald1:p1:x1:q0:ee1:bd1:yi2e1:zi1eee''"
proof (intro conjI impI)
  assume c: "canonical d"
  show "Decode (bencoding d) spare = Inr (Some d, length (bencoding d), None)"
    using Decode_bencoding[OF c, of "[]"] by simp
  show "Encode (Some d) = Inr (bencoding d)"
    using c by (rule canonical_Encode)
next
  assume "nil_free d"
  then show "Encode (Some d) = Inr (bencoding (normalise d))"
    by (rule nil_free_Encode)
next
  show "keys_ascending (normalise d)"
    by (rule keys_ascending_normalise)
next
  assume "canonical d"
  then show "normalise d = d"
    by (rule canonical_normalise)
next
  show "map_of (sorted_entries dict) = map_of dict"
    by (rule map_of_sorted_entries)
next
  assume a: "canonical (DICT kvs) \<and> map_of dict = map_of kvs"
  then have "Encode (Some (DICT dict)) = Encode (Some (DICT kvs))"
    by (intro Encode_map_of_cong) simp
  then show "Encode (Some (DICT dict)) = Inr (bencoding (DICT kvs))"
    using a canonical_Encode[of "DICT kvs"] by simp
next
  show "Encode (Some (INTEGER v)) = Inr (''i'' @ Sprintf_d v @ ''e'')"
    by simp
next
  show "minimal_numeral (Sprintf_d v)"
    by (rule minimal_numeral_Sprintf_d)
next
  show "Encode (Some (DICT [(''spam'', Some (STRING ''eggs'')), (''cow'', Some (STRING ''moo''))])) =
     Inr ''d3:cow3:moo4:spam4:eggse''"
    by code_simp
next
  show "Encode (Some (DICT
     [(''b'', Some (DICT [(''z'', Some (INTEGER 1)), (''y'', Some (INTEGER 2))])),
      (''a'', Some (LIST [Some (DICT [(''q'', Some (STRING [])),
                                      (''p'', Some (STRING ''x''))])]))])) =
     Inr ''d1:ald1:p1:x1:q0:ee1:bd1:yi2e1:zi1eee''"
    by code_simp
qed

theorem Encode_Decode_canonical_witness:
  "Decode ''d3:cow3:moo3:numli-42ee4:spam4:eggse'' [] =
     Inr (Some (DICT [(''cow'', Some (STRING ''moo'')),
                      (''num'', Some (LIST [Some (INTEGER (- 42))])),
                      (''spam'', Some (STRING ''eggs''))]), 36, None) \<and>
   Encode (Some (DICT [(''cow'', Some (STRING ''moo'')),
                      (''num'', Some (LIST [Some (INTEGER (- 42))])),
                      (''spam'', Some (STRING ''eggs''))])) =
     Inr ''d3:cow3:moo3:numli-42ee4:spam4:eggse'' \<and>
   Encode (Some (DICT [(''zz'', Some (INTEGER 7)), (''a'', Some (STRING ''b''))])) =
     Inr ''d1:a1:b2:zzi7ee'' \<and>
   Encode (Some (LIST [Some (DICT [(''k'', Some (DICT [(''n'', Some (INTEGER 1)),
                                                        (''m'', Some (INTEGER 2))])),
                                   (''j'', Some (STRING ''x''))])])) =
     Inr ''ld1:j1:x1:kd1:mi2e1:ni1eeee''"
proof -
  let ?d = "DICT [(''cow'', Some (STRING ''moo'')),
                  (''num'', Some (LIST [Some (INTEGER (- 42))])),
                  (''spam'', Some (STRING ''eggs''))]"
  let ?kvs = "[(''a'', Some (STRING ''b'')), (''zz'', Some (INTEGER 7))]"
  let ?dict = "[(''zz'', Some (INTEGER 7)), (''a'', Some (STRING ''b''))]"
  let ?n = "LIST [Some (DICT [(''k'', Some (DICT [(''n'', Some (INTEGER 1)),
                                                  (''m'', Some (INTEGER 2))])),
                              (''j'', Some (STRING ''x''))])]"
  have c: "canonical ?d"
    by code_simp
  have b: "bencoding ?d = ''d3:cow3:moo3:numli-42ee4:spam4:eggse''"
    by code_simp
  have c2: "canonical (DICT ?kvs)"
    by code_simp
  have m: "map_of ?dict = map_of ?kvs"
    by (auto simp: fun_eq_iff)
  have b2: "bencoding (DICT ?kvs) = ''d1:a1:b2:zzi7ee''"
    by code_simp
  have f: "nil_free ?n"
    by code_simp
  have b3: "bencoding (normalise ?n) = ''ld1:j1:x1:kd1:mi2e1:ni1eeee''"
    by code_simp
  note t = Encode_Decode_canonical [where d = ?d and kvs = ?kvs and dict = ?dict and v = 0]
  note u = Encode_Decode_canonical [where d = ?n and kvs = ?kvs and dict = ?dict and v = 0]
  from t c have "Decode (bencoding ?d) [] = Inr (Some ?d, length (bencoding ?d), None)"
    and "Encode (Some ?d) = Inr (bencoding ?d)"
    by blast+
  moreover from t c2 m have "Encode (Some (DICT ?dict)) = Inr (bencoding (DICT ?kvs))"
    by blast
  moreover from u f have "Encode (Some ?n) = Inr (bencoding (normalise ?n))"
    by blast
  ultimately show ?thesis
    unfolding b b2 b3 by simp
qed

section \<open>Bencode: spare capacity\<close>

text \<open>
  A string whose length prefix runs past the end of the slice is cut out of the
  backing array when the capacity allows it, and panics otherwise.
\<close>

lemma Decode_string_past_length:
  "Decode ''3:ab'' [CHR 0x00, CHR 0x00] = Inr (Some (STRING [CHR ''a'', CHR ''b'', CHR 0x00]), 5, None)"
  "Decode ''3:ab'' [] = Inl SliceBoundsOutOfRange"
  by code_simp+

text \<open>
  A decode that succeeds within the length of the slice has not read the spare bytes:
  it gives the same result whatever they are.
\<close>

lemma Decode_string_within:
  "Decode_string content spare i = Inr (v, n, e) \<Longrightarrow> n \<le> length content \<Longrightarrow>
     Decode_string content spare' i = Inr (v, n, e)"
proof (induction content spare i rule: Decode_string.induct)
  case (1 content spare i)
  show ?case
  proof (cases "i < length content \<and> content ! i \<noteq> CHR '':''")
    case True
    then have "Decode_string content spare (i + 1) = Inr (v, n, e)"
      using 1(2) by (subst (asm) Decode_string.simps) simp
    then have "Decode_string content spare' (i + 1) = Inr (v, n, e)"
      using 1(1) 1(3) True by simp
    then show ?thesis using True by (subst Decode_string.simps) simp
  next
    case False
    then show ?thesis
      using 1(2) 1(3)
      by (subst Decode_string.simps, subst (asm) Decode_string.simps)
         (auto split: option.splits if_splits)
  qed
qed

lemma Decode_list_success_index:
  "Decode_list content spare i l = Inr (v, n, None) \<Longrightarrow> i < length content"
  by (subst (asm) Decode_list.simps) (simp split: if_splits)

lemma Decode_dict_success_index:
  "Decode_dict content spare i d = Inr (v, n, None) \<Longrightarrow> i < length content"
  by (subst (asm) Decode_dict.simps) (simp split: if_splits)

lemma Decode_within:
  "Decode content spare = Inr (v, n, None) \<Longrightarrow> n \<le> length content \<Longrightarrow>
     Decode content spare' = Inr (v, n, None)"
  "Decode_list content spare i l = Inr (v, n, None) \<Longrightarrow>
     Decode_list content spare' i l = Inr (v, n, None)"
  "Decode_dict content spare i dict = Inr (v, n, None) \<Longrightarrow>
     Decode_dict content spare' i dict = Inr (v, n, None)"
proof (induct content spare and content spare i l and content spare i dict
       arbitrary: v n and v n and v n
       rule: Decode_Decode_list_Decode_dict.induct)
  case (1 content spare)
  note eq = 1(3)[unfolded Decode.simps[of content spare] Let_def]
  show ?case
  proof (cases "length content = 0")
    case True
    then show ?thesis using eq by (simp add: Decode.simps)
  next
    case ne: False
    show ?thesis
    proof (cases "content ! 0 = CHR ''i''")
      case True
      then show ?thesis using eq ne by (simp add: Decode.simps)
    next
      case ni: False
      show ?thesis
      proof (cases "content ! 0 = CHR ''l''")
        case True
        then have "Decode_list content spare 1 [] = Inr (v, n, None)" using eq ne by simp
        from 1(1)[OF ne refl ni True this] show ?thesis
          using ne ni True by (simp add: Decode.simps)
      next
        case nl: False
        show ?thesis
        proof (cases "content ! 0 = CHR ''d''")
          case True
          then have "Decode_dict content spare 1 [] = Inr (v, n, None)" using eq ne ni nl by simp
          from 1(2)[OF ne refl ni nl True this] show ?thesis
            using ne ni nl True by (simp add: Decode.simps)
        next
          case False
          then have "Decode_string content spare 0 = Inr (v, n, None)" using eq ne ni nl by simp
          from Decode_string_within[OF this 1(4)] show ?thesis
            using ne ni nl False by (simp add: Decode.simps)
        qed
      qed
    qed
  qed
next
  case (2 content spare i l)
  note eq = 2(3)[unfolded Decode_list.simps[of content spare i l]]
  show ?case
  proof (cases "i < length content \<and> content ! i \<noteq> CHR ''e''")
    case False
    then show ?thesis using eq by (subst Decode_list.simps) (auto split: if_splits)
  next
    case True
    then have a: "i < length content" "content ! i \<noteq> CHR ''e''" by simp_all
    show ?thesis
    proof (cases "Decode (drop i content) spare")
      case (Inl p)
      then show ?thesis using eq a by simp
    next
      case (Inr r)
      obtain elem count err where r: "r = (elem, count, err)" by (cases r)
      show ?thesis
      proof (cases err)
        case (Some e)
        then show ?thesis using eq a Inr r by simp
      next
        case None
        have rec: "Decode_list content spare (i + count - 1 + 1) (l @ [elem]) = Inr (v, n, None)"
          using eq a Inr r None by simp
        have pos: "1 \<le> count"
          using Decode_count_pos[of "drop i content" spare elem count] a Inr r None by simp
        have "i + count - 1 + 1 < length content"
          using rec by (rule Decode_list_success_index)
        then have le: "count \<le> length (drop i content)" using pos by simp
        have e: "Decode (drop i content) spare = Inr (elem, count, None)"
          using Inr r None by simp
        have "Decode (drop i content) spare' = Inr (elem, count, None)"
          using 2(1)[OF a e le] .
        moreover have "Decode_list content spare' (i + count - 1 + 1) (l @ [elem]) = Inr (v, n, None)"
          using 2(2)[OF a Inr r[symmetric] refl None rec] .
        ultimately show ?thesis using a by (subst Decode_list.simps) simp
      qed
    qed
  qed
next
  case (3 content spare i dict)
  note eq = 3(4)[unfolded Decode_dict.simps[of content spare i dict]]
  show ?case
  proof (cases "i < length content \<and> content ! i \<noteq> CHR ''e''")
    case False
    then show ?thesis using eq by (subst Decode_dict.simps) (auto split: if_splits)
  next
    case True
    then have a: "i < length content" "content ! i \<noteq> CHR ''e''" by simp_all
    show ?thesis
    proof (cases "Decode (drop i content) spare")
      case (Inl p)
      then show ?thesis using eq a by simp
    next
      case (Inr r)
      obtain key count err where r: "r = (key, count, err)" by (cases r)
      show ?thesis
      proof (cases err)
        case (Some e)
        then show ?thesis using eq a Inr r by simp
      next
        case None
        show ?thesis
        proof (cases key)
          case kn: None
          then show ?thesis using eq a Inr r None by simp
        next
          case (Some k)
          show ?thesis
          proof (cases "is_STRING k \<and> \<not> length content < i + count")
            case False
            then show ?thesis using eq a Inr r None Some by (auto split: if_splits)
          next
            case t2: True
            have c1: "\<not> \<not> is_STRING k" and c2: "\<not> length content < i + count"
              using t2 by simp_all
            show ?thesis
            proof (cases "Decode (drop (i + count) content) spare")
              case l2: (Inl p)
              then show ?thesis using eq a Inr r None Some t2 by simp
            next
              case r2: (Inr r')
              obtain val count' err' where r': "r' = (val, count', err')" by (cases r')
              show ?thesis
              proof (cases err')
                case s2: (Some e)
                then show ?thesis using eq a Inr r None Some t2 r2 r' by simp
              next
                case n2: None
                have rec: "Decode_dict content spare (i + count + count' - 1 + 1)
                        (AList.update (STRING_value k) val dict) = Inr (v, n, None)"
                  using eq a Inr r None Some t2 r2 r' n2 by simp
                have pos: "1 \<le> count"
                  using Decode_count_pos[of "drop i content" spare key count] a Inr r None by simp
                have lt: "i + count + count' - 1 + 1 < length content"
                  using rec by (rule Decode_dict_success_index)
                have le: "count \<le> length (drop i content)" using c2 by simp
                have le': "count' \<le> length (drop (i + count) content)" using lt pos by simp
                have e: "Decode (drop i content) spare = Inr (key, count, None)"
                  using Inr r None by simp
                have e': "Decode (drop (i + count) content) spare = Inr (val, count', None)"
                  using r2 r' n2 by simp
                have k1: "Decode (drop i content) spare' = Inr (Some k, count, None)"
                  using 3(1)[OF a e le] Some by simp
                have k2: "Decode (drop (i + count) content) spare' = Inr (val, count', None)"
                  using 3(2)[OF a Inr r[symmetric] refl None Some c1 c2 e' le'] .
                have k3: "Decode_dict content spare' (i + count + count' - 1 + 1)
                        (AList.update (STRING_value k) val dict) = Inr (v, n, None)"
                  using 3(3)[OF a Inr r[symmetric] refl None Some c1 c2 r2 r'[symmetric] refl n2 rec] .
                show ?thesis using a t2 k1 k2 k3 by (subst Decode_dict.simps) simp
              qed
            qed
          qed
        qed
      qed
    qed
  qed
qed


section \<open>Metainfo: the info-hash\<close>

lemma andThenE:
  assumes "andThen r f = Inr v"
  obtains x where "r = Inr x" "f x = Inr v"
  using assms by (cases r) (simp_all add: andThen_def)

lemma TorrentFromBencodeData_InfoHash:
  assumes "TorrentFromBencodeData d tail = Inr (Some t)"
  obtains root e where "d = Some (DICT root)" "Encode (map_index root ''info'') = Inr e"
    "InfoHash t = sha1_Sum e"
proof -
  from assms have dn: "d \<noteq> None"
    by (auto simp: TorrentFromBencodeData_def split: if_splits)
  note a = assms[unfolded TorrentFromBencodeData_def, simplified dn if_False]
  from a obtain root where r: "AsDict d = Inr root" and
    "andThen (AsDict (map_index root ''info'')) (\<lambda>infoDict.
        andThen (announce_list_block root) (\<lambda>announceList.
        andThen (announce_block root announceList) (\<lambda>announceList.
        andThen (string_field infoDict ''name'') (\<lambda>name.
        andThen (url_list_block root) (\<lambda>urlList.
        andThen (string_field root ''comment'') (\<lambda>comment.
        andThen (string_field root ''created by'') (\<lambda>createdBy.
        andThen (int_field root ''creation date'') (\<lambda>createdAt.
        andThen (files_block infoDict name) (\<lambda>(fileList, len).
        andThen (int_field infoDict ''piece length'') (\<lambda>pieceLength.
        andThen (pieces_block infoDict tail) (\<lambda>pieces.
        andThen (private_block infoDict) (\<lambda>isPrivate.
        andThen (info_hash_block root) (\<lambda>hash.
        andThen (piece_indices pieceLength 0 fileList) (\<lambda>fileList.
        Inr (Some \<lparr>AnnounceList = announceList, Name = name, UrlList = urlList,
                    CreatedBy = createdBy, Comment = comment, CreatedAt = createdAt,
                    FileList = fileList, PieceLength = pieceLength, Pieces = pieces,
                    InfoHash = hash, Length_Torrent = len,
                    IsPrivate = isPrivate\<rparr>))))))))))))))) = Inr (Some t)"
    by (rule andThenE)
  then obtain hash where h: "info_hash_block root = Inr hash" and t: "InfoHash t = hash"
    by (auto elim!: andThenE)
  from r have d: "d = Some (DICT root)"
    by (cases d rule: AsDict.cases) simp_all
  from h obtain e where "Encode (map_index root ''info'') = Inr e" "hash = sha1_Sum e"
    by (auto simp: info_hash_block_def elim!: andThenE)
  with d t that show thesis by blast
qed


lemma Decode_int_not_DICT: "Decode_int content i \<noteq> Inr (Some (DICT root), n, e)"
  by (induction content i rule: Decode_int.induct)
     (subst Decode_int.simps, auto split: option.splits)

lemma Decode_string_not_DICT: "Decode_string content spare i \<noteq> Inr (Some (DICT root), n, e)"
  by (induction content spare i rule: Decode_string.induct)
     (subst Decode_string.simps, auto split: option.splits)

lemma Decode_list_not_DICT: "Decode_list content spare i l \<noteq> Inr (Some (DICT root), n, e)"
proof (induction "length content - i" arbitrary: i l rule: less_induct)
  case less
  show ?case
  proof (cases "i < length content \<and> content ! i \<noteq> CHR ''e''")
    case False
    then show ?thesis by (subst Decode_list.simps) auto
  next
    case True
    show ?thesis
    proof (cases "Decode (drop i content) spare")
      case (Inl p)
      then show ?thesis using True by (subst Decode_list.simps) simp
    next
      case (Inr r)
      obtain elem count err where r: "r = (elem, count, err)" by (cases r)
      show ?thesis
      proof (cases err)
        case (Some e')
        then show ?thesis using True Inr r by (subst Decode_list.simps) simp
      next
        case None
        have "drop i content \<noteq> []" using True by simp
        then have "1 \<le> count" using Decode_count_pos Inr r None by blast
        then have "length content - (i + count - 1 + 1) < length content - i"
          using True by auto
        from less[OF this] show ?thesis
          using True Inr r None by (subst Decode_list.simps) simp
      qed
    qed
  qed
qed

lemma Decode_DICT_is_dict_loop:
  assumes "Decode b spare = Inr (Some (DICT root), n, None)"
  shows "b \<noteq> []" "b ! 0 = CHR ''d''" "Decode_dict b spare 1 [] = Inr (Some (DICT root), n, None)"
proof -
  show ne: "b \<noteq> []" using assms by (auto simp: Decode.simps)
  have "b ! 0 = CHR ''d'' \<and> Decode_dict b spare 1 [] = Inr (Some (DICT root), n, None)"
    using assms ne Decode_int_not_DICT[of b 1 root n None] Decode_list_not_DICT[of b spare 1 "[]" root n None]
      Decode_string_not_DICT[of b spare 0 root n None]
    by (subst (asm) Decode.simps) (auto simp: Let_def split: if_splits)
  then show "b ! 0 = CHR ''d''" "Decode_dict b spare 1 [] = Inr (Some (DICT root), n, None)"
    by simp_all
qed

lemma slice_of_info_update:
  assumes "slice_of_info found acc" "Decode (drop j b) [] = Inr (v, vc, None)"
  shows "slice_of_info (if Some (STRING ks) = Some (STRING ''info'')
                        then Some (take vc (drop j b)) else found)
           (AList.update ks v acc)"
proof (cases "ks = ''info''")
  case True
  have "Decode (take vc (drop j b) @ drop vc (drop j b)) [] = Inr (v, vc, None)"
    by (simp only: append_take_drop_id assms(2))
  then show ?thesis
    using True unfolding slice_of_info_def by (auto simp: update_conv' simp del: append_take_drop_id)
next
  case False
  then show ?thesis
    using assms(1) unfolding slice_of_info_def
    by (auto simp: update_conv' split: option.splits)
qed

lemma info_slice_scan_follows_Decode_dict:
  assumes "Decode_dict b [] i acc = Inr (Some (DICT root), n, None)" "slice_of_info found acc"
  shows "slice_of_info (info_slice_scan b i found) root"
  using assms
proof (induction "length b - i" arbitrary: i acc found rule: less_induct)
  case less
  note eq = less.prems(1)[unfolded Decode_dict.simps[of b "[]" i acc]]
  show ?case
  proof (cases "i < length b \<and> b ! i \<noteq> CHR ''e''")
    case False
    then have "root = acc" using eq by (auto split: if_splits)
    moreover have "info_slice_scan b i found = found"
      using False by (subst info_slice_scan.simps) auto
    ultimately show ?thesis using less.prems(2) by simp
  next
    case True
    then have a: "i < length b" "b ! i \<noteq> CHR ''e''" by simp_all
    show ?thesis
    proof (cases "Decode (drop i b) []")
      case (Inl p)
      then show ?thesis using eq a by simp
    next
      case (Inr r)
      obtain key kc err where r: "r = (key, kc, err)" by (cases r)
      show ?thesis
      proof (cases err)
        case (Some e)
        then show ?thesis using eq a Inr r by simp
      next
        case None
        have kpos: "1 \<le> kc"
          using Decode_count_pos[of "drop i b" "[]" key kc] a Inr r None by simp
        show ?thesis
        proof (cases key)
          case kn: None
          then show ?thesis using eq a Inr r None by simp
        next
          case (Some k)
          show ?thesis
          proof (cases "is_STRING k \<and> \<not> length b < i + kc")
            case False
            then show ?thesis using eq a Inr r None Some by (auto split: if_splits)
          next
            case t2: True
            then obtain ks where ks: "k = STRING ks" by (cases k) simp_all
            show ?thesis
            proof (cases "Decode (drop (i + kc) b) []")
              case l2: (Inl p)
              then show ?thesis using eq a Inr r None Some t2 by simp
            next
              case r2: (Inr r')
              obtain v vc err' where r': "r' = (v, vc, err')" by (cases r')
              show ?thesis
              proof (cases err')
                case s2: (Some e)
                then show ?thesis using eq a Inr r None Some t2 r2 r' by simp
              next
                case n2: None
                have rec: "Decode_dict b [] (i + kc + vc) (AList.update ks v acc) =
                             Inr (Some (DICT root), n, None)"
                  using eq a Inr r None Some t2 r2 r' n2 ks kpos by simp
                let ?found = "if Some (STRING ks) = Some (STRING ''info'')
                              then Some (take vc (drop (i + kc) b)) else found"
                have inv: "slice_of_info ?found (AList.update ks v acc)"
                  using less.prems(2) r2 r' n2 by (intro slice_of_info_update) simp_all
                have "length b - (i + kc + vc) < length b - i" using a kpos by simp
                from less.hyps[OF this rec inv]
                have "slice_of_info (info_slice_scan b (i + kc + vc) ?found) root" .
                moreover have "info_slice_scan b i found = info_slice_scan b (i + kc + vc) ?found"
                  using a Inr r None Some ks r2 r' n2 kpos
                  by (subst info_slice_scan.simps) (simp add: decoded_at_def)
                ultimately show ?thesis by simp
              qed
            qed
          qed
        qed
      qed
    qed
  qed
qed

lemma info_slice_decodes_to_info:
  assumes "Decode b [] = Inr (Some (DICT root), n, None)" "info_slice_of b = Some s"
  shows "\<exists>v rest m. map_of root ''info'' = Some v \<and> Decode (s @ rest) [] = Inr (v, m, None)"
proof -
  note d = Decode_DICT_is_dict_loop[OF assms(1)]
  have "slice_of_info None []" by (simp add: slice_of_info_def)
  from info_slice_scan_follows_Decode_dict[OF d(3) this]
  have "slice_of_info (info_slice_of b) root" using d(1,2) by (simp add: info_slice_of_def)
  then show ?thesis using assms(2) by (simp add: slice_of_info_def)
qed


lemma zero_bytes_numeral: "zero_bytes (numeral k) = 0 # zero_bytes (pred_numeral k)"
  by (simp add: numeral_eq_Suc)

lemma sha1_extend_numeral:
  "sha1_extend (numeral k) ws =
     sha1_extend (pred_numeral k) (rotl32 1 (ws ! 2 XOR ws ! 7 XOR ws ! 13 XOR ws ! 15) # ws)"
  by (simp add: numeral_eq_Suc)

lemmas sha1_eval = sha1_Sum_def sha1_bytes_def sha1_pad_def be_bytes_def sha1_blocks.simps
  sha1_block_def sha1_schedule_def rotl32_def sha1_f_def sha1_k_def zero_bytes_numeral
  sha1_extend_numeral


lemmas metainfo_eval = TorrentFromBytes_def TorrentFromBencodeData_def andThen_def map_index_def
  announce_list_block_def announce_block_def string_field_def int_field_def url_list_block_def
  file_entry_def files_block_def pieces_block_def private_block_def info_hash_block_def
  AsBytes_def NewFile_def pieces_loop.simps int64_def signed_divide_int_def
  signed_modulo_int_def


lemma TorrentFromBytes_InfoHash:
  assumes t: "TorrentFromBytes b spare tail = Inr (Inr (Some t))"
  shows "\<exists>root n e. Decode b spare = Inr (Some (DICT root), n, None) \<and>
                 Encode (map_index root ''info'') = Inr e \<and> InfoHash t = sha1_Sum e"
proof -
  from t obtain r where r: "Decode b spare = Inr r" and
    k: "(case r of (bencodeData, count, err) \<Rightarrow>
          case err of Some e \<Rightarrow> Inr (Inl e)
          | None \<Rightarrow> andThen (TorrentFromBencodeData bencodeData tail) (\<lambda>torrent. Inr (Inr torrent)))
        = Inr (Inr (Some t))"
    unfolding TorrentFromBytes_def by (rule andThenE)
  obtain d n err where rr: "r = (d, n, err)" by (cases r)
  from k rr have err: "err = None" by (cases err) simp_all
  from k rr err have "TorrentFromBencodeData d tail = Inr (Some t)"
    by (auto elim!: andThenE)
  then obtain root e where "d = Some (DICT root)" "Encode (map_index root ''info'') = Inr e"
    "InfoHash t = sha1_Sum e"
    by (rule TorrentFromBencodeData_InfoHash)
  then show ?thesis using r rr err by blast
qed

lemma TorrentFromBytes_canonical_info:
  assumes t: "TorrentFromBytes b spare tail = Inr (Inr (Some t))" and c: "canonical info"
    and s: "info_slice_of b = Some (bencoding info)"
  shows "InfoHash t = sha1_Sum (bencoding info)"
proof -
  from TorrentFromBytes_InfoHash[OF t] obtain root n e
    where d: "Decode b spare = Inr (Some (DICT root), n, None)"
      and e: "Encode (map_index root ''info'') = Inr e" and h: "InfoHash t = sha1_Sum e"
    by blast
  have "Decode_dict b spare 1 [] = Inr (Some (DICT root), n, None)"
    using d by (rule Decode_DICT_is_dict_loop(3))
  then have "Decode_dict b [] 1 [] = Inr (Some (DICT root), n, None)"
    by (rule Decode_within(3))
  moreover have "b \<noteq> []" "b ! 0 = CHR ''d''"
    using d by (rule Decode_DICT_is_dict_loop(1), rule Decode_DICT_is_dict_loop(2))
  ultimately have d0: "Decode b [] = Inr (Some (DICT root), n, None)"
    by (simp add: Decode.simps)
  from info_slice_decodes_to_info[OF d0 s] obtain v rest m where
    v: "map_of root ''info'' = Some v" and dv: "Decode (bencoding info @ rest) [] = Inr (v, m, None)"
    by blast
  have "v = Some info" using dv Decode_bencoding[OF c, of rest "[]"] by simp
  then have "map_index root ''info'' = Some info" using v by (simp add: map_index_def)
  then have "e = bencoding info" using e canonical_Encode[OF c] by simp
  then show ?thesis using h by simp
qed

text \<open>
  Claim C1, as the code has it. \<^verbatim>\<open>TorrentFromBytes\<close> keeps no byte range of its input:
  for every input it accepts, whatever the spare bytes of the slice, the info-hash is
  the SHA-1 of \<^verbatim>\<open>Encode\<close> applied to the decoded value of \<^verbatim>\<open>info\<close>. It is the SHA-1
  of the info slice of the input whenever that slice is the encoding of a canonical
  value (keys ascending, integers and lengths as \<^verbatim>\<open>%d\<close> writes them).
\<close>

theorem InfoHash_is_hash_of_reencoded_info:
  "(TorrentFromBytes b spare tail = Inr (Inr (Some t)) \<longrightarrow>
      (\<exists>root n e. Decode b spare = Inr (Some (DICT root), n, None) \<and>
                 Encode (map_index root ''info'') = Inr e \<and> InfoHash t = sha1_Sum e)) \<and>
   (TorrentFromBytes b spare tail = Inr (Inr (Some t)) \<and> canonical info \<and>
    info_slice_of b = Some (bencoding info) \<longrightarrow>
      InfoHash t = sha1_Sum (bencoding info))"
  using TorrentFromBytes_InfoHash TorrentFromBytes_canonical_info by blast

lemma Decode_sorted_info_metainfo:
  "Decode sorted_info_metainfo spare =
     Inr (Some (DICT [(''announce'', Some (STRING ''u:/'')), (''info'', Some sorted_info)]),
          94, None)"
  unfolding sorted_info_metainfo_def sorted_info_def by code_simp

lemma Decode_unsorted_info_metainfo:
  "Decode unsorted_info_metainfo spare =
     Inr (Some (DICT [(''announce'', Some (STRING ''u:/'')),
                      (''info'', Some (DICT [(''name'', Some (STRING ''t'')),
                         (''length'', Some (INTEGER 1)),
                         (''piece length'', Some (INTEGER 1)),
                         (''pieces'', Some (STRING ''aaaaaaaaaaaaaaaaaaaa''))]))]), 94, None)"
  unfolding unsorted_info_metainfo_def by code_simp

lemma Encode_info_examples:
  "Encode (Some sorted_info) =
     Inr ''d6:lengthi1e4:name1:t12:piece lengthi1e6:pieces20:aaaaaaaaaaaaaaaaaaaae''"
  "Encode (Some (DICT [(''name'', Some (STRING ''t'')),
                         (''length'', Some (INTEGER 1)),
                         (''piece length'', Some (INTEGER 1)),
                         (''pieces'', Some (STRING ''aaaaaaaaaaaaaaaaaaaa''))])) =
     Inr ''d6:lengthi1e4:name1:t12:piece lengthi1e6:pieces20:aaaaaaaaaaaaaaaaaaaae''"
  unfolding sorted_info_def by code_simp+

lemma Sprintf_x_piece: "Sprintf_x ''aaaaaaaaaaaaaaaaaaaa'' = ''6161616161616161616161616161616161616161''"
  by code_simp

lemma TorrentFromBytes_sorted_info_metainfo:
  "TorrentFromBytes sorted_info_metainfo spare tail = Inr (Inr (Some example_torrent))"
  unfolding example_torrent_def
  by (simp add: metainfo_eval Decode_sorted_info_metainfo Encode_info_examples[unfolded sorted_info_def]
        sorted_info_def Sprintf_x_piece del: Encode.simps)

lemma TorrentFromBytes_unsorted_info_metainfo:
  "TorrentFromBytes unsorted_info_metainfo spare tail = Inr (Inr (Some example_torrent))"
  unfolding example_torrent_def
  by (simp add: metainfo_eval Decode_unsorted_info_metainfo Encode_info_examples Sprintf_x_piece
        del: Encode.simps)

lemma info_slice_of_examples:
  "info_slice_of sorted_info_metainfo =
     Some ''d6:lengthi1e4:name1:t12:piece lengthi1e6:pieces20:aaaaaaaaaaaaaaaaaaaae''"
  "info_slice_of unsorted_info_metainfo =
     Some ''d4:name1:t6:lengthi1e12:piece lengthi1e6:pieces20:aaaaaaaaaaaaaaaaaaaae''"
  unfolding sorted_info_metainfo_def unsorted_info_metainfo_def by code_simp+

lemma sha1_hex_examples:
  "Sprintf_x (sha1_Sum ''d6:lengthi1e4:name1:t12:piece lengthi1e6:pieces20:aaaaaaaaaaaaaaaaaaaae'') =
     ''bef0df15c249c1c89999858f8c35aa93cb472fe9''"
  "Sprintf_x (sha1_Sum ''d4:name1:t6:lengthi1e12:piece lengthi1e6:pieces20:aaaaaaaaaaaaaaaaaaaae'') =
     ''2e7ae5f58cd9fd2a3d60db2e763bdb1c33eb4a4c''"
  by (simp_all add: sha1_eval Sprintf_x_def hex_digit_def char_of_eq_iff)

theorem InfoHash_is_hash_of_reencoded_info_witness:
  "TorrentFromBytes sorted_info_metainfo [] ''ee'' = Inr (Inr (Some example_torrent)) \<and>
   canonical sorted_info \<and>
   info_slice_of sorted_info_metainfo = Some (bencoding sorted_info) \<and>
   InfoHash example_torrent = sha1_Sum (bencoding sorted_info)"
proof -
  have t: "TorrentFromBytes sorted_info_metainfo [] ''ee'' = Inr (Inr (Some example_torrent))"
    by (rule TorrentFromBytes_sorted_info_metainfo)
  have c: "canonical sorted_info"
    unfolding sorted_info_def by code_simp
  have b: "bencoding sorted_info =
             ''d6:lengthi1e4:name1:t12:piece lengthi1e6:pieces20:aaaaaaaaaaaaaaaaaaaae''"
    unfolding sorted_info_def by code_simp
  have s: "info_slice_of sorted_info_metainfo = Some (bencoding sorted_info)"
    unfolding b by (rule info_slice_of_examples(1))
  from InfoHash_is_hash_of_reencoded_info
         [of sorted_info_metainfo "[]" "''ee''" example_torrent sorted_info] t c s
  show ?thesis by blast
qed

text \<open>
  The claim as written fails for an info dictionary whose keys are not in ascending
  order: the info-hash of \<open>unsorted_info_metainfo\<close> is the SHA-1 of the re-encoded
  dictionary, \<^verbatim>\<open>bef0df15...\<close>, and the SHA-1 of its info slice is \<^verbatim>\<open>2e7ae5f5...\<close>.
\<close>

theorem InfoHash_not_hash_of_info_slice_counterexample:
  "map_sum id (map_sum id (map_option (Sprintf_x \<circ> InfoHash)))
     (TorrentFromBytes unsorted_info_metainfo [] ''ee'') =
     Inr (Inr (Some ''bef0df15c249c1c89999858f8c35aa93cb472fe9'')) \<and>
   info_slice_of unsorted_info_metainfo =
     Some ''d4:name1:t6:lengthi1e12:piece lengthi1e6:pieces20:aaaaaaaaaaaaaaaaaaaae'' \<and>
   Sprintf_x (sha1_Sum ''d4:name1:t6:lengthi1e12:piece lengthi1e6:pieces20:aaaaaaaaaaaaaaaaaaaae'') =
     ''2e7ae5f58cd9fd2a3d60db2e763bdb1c33eb4a4c''"
  by (simp add: TorrentFromBytes_unsorted_info_metainfo example_torrent_def
        info_slice_of_examples sha1_hex_examples)

section \<open>Metainfo: the piece ranges of the files\<close>

lemma Decode_two_files:
  "Decode two_files spare =
     Inr (Some (DICT [(''info'', Some (DICT
            [(''files'', Some (LIST
               [Some (DICT [(''length'', Some (INTEGER 3)), (''path'', Some (LIST [Some (STRING ''a'')]))]),
                Some (DICT [(''length'', Some (INTEGER 5)), (''path'', Some (LIST [Some (STRING ''b'')]))])])),
             (''name'', Some (STRING ''t'')),
             (''piece length'', Some (INTEGER 4)),
             (''pieces'', Some (STRING ''0123456789abcdefghij0123456789abcdefghij''))]))]), 145, None)"
  unfolding two_files_def by code_simp

lemma TorrentFromBytes_two_files:
  "map_sum id (map_sum id (map_option (\<lambda>t.
       (PieceLength t, map Length (FileList t), length (Pieces t), piece_ranges t))))
     (TorrentFromBytes two_files spare tail) =
   Inr (Inr (Some (4, [3, 5], 2, [(0, 0), (1, 2)])))"
  by (simp add: metainfo_eval piece_ranges_def Decode_two_files)

text \<open>
  Claim C6 fails in the code. For \<open>two_files\<close> (files of 3 and 5 bytes, pieces of 4
  bytes, two pieces) the cumulative offsets give the ranges \<open>0..0\<close> and \<open>0..1\<close>: the
  second file starts at byte 3, inside piece 0, and ends in piece 1. The code gives
  every file a whole number of pieces of its own and records \<open>0..0\<close> and \<open>1..2\<close>:
  the last index, 2, is the number of pieces.
\<close>

theorem piece_ranges_two_files:
  "\<exists>t. TorrentFromBytes two_files spare tail = Inr (Inr (Some t)) \<and>
       PieceLength t = 4 \<and> map Length (FileList t) = [3, 5] \<and> length (Pieces t) = 2 \<and>
       piece_ranges t = [(0, 0), (1, 2)] \<and>
       cumulative_ranges (PieceLength t) 0 (map Length (FileList t)) = [(0, 0), (0, 1)]"
proof -
  obtain t where "TorrentFromBytes two_files spare tail = Inr (Inr (Some t))"
    and "(PieceLength t, map Length (FileList t), length (Pieces t), piece_ranges t) =
           (4, [3, 5], 2, [(0, 0), (1, 2)])"
    using TorrentFromBytes_two_files[of spare tail]
    by (cases "TorrentFromBytes two_files spare tail" rule: sum.exhaust)
       (auto simp: map_sum_def split: sum.splits option.splits)
  then show ?thesis by (intro exI[of _ t]) simp
qed

section \<open>Verifier: a piece across two files\<close>

lemma sha1_hex_windows:
  "Sprintf_x (sha1_Sum ''abcd'') = ''81fe8bfe87576c3ecb22426f8e57847382917acf''"
  "Sprintf_x (sha1_Sum ''efgh'') = ''2aed8aa9f826c21ef07d5ee15b48eea06e9c8a62''"
  "Sprintf_x (sha1_Sum ''defg'') = ''107ecb6890eeee99d9ccc06e711631349a7dd72b''"
  by (simp_all add: sha1_eval Sprintf_x_def hex_digit_def char_of_eq_iff)

lemma Decode_boundary_metainfo:
  "Decode boundary_metainfo spare =
     Inr (Some (DICT [(''info'', Some (DICT
            [(''files'', Some (LIST
               [Some (DICT [(''length'', Some (INTEGER 3)), (''path'', Some (LIST [Some (STRING ''a'')]))]),
                Some (DICT [(''length'', Some (INTEGER 5)), (''path'', Some (LIST [Some (STRING ''b'')]))])])),
             (''name'', Some (STRING ''t'')),
             (''piece length'', Some (INTEGER 4)),
             (''pieces'', Some (STRING boundary_pieces))]))]), 145, None)"
  unfolding boundary_metainfo_def boundary_info_def boundary_pieces_def by code_simp

lemma Encode_boundary_info:
  "Encode (Some (DICT
            [(''files'', Some (LIST
               [Some (DICT [(''length'', Some (INTEGER 3)), (''path'', Some (LIST [Some (STRING ''a'')]))]),
                Some (DICT [(''length'', Some (INTEGER 5)), (''path'', Some (LIST [Some (STRING ''b'')]))])])),
             (''name'', Some (STRING ''t'')),
             (''piece length'', Some (INTEGER 4)),
             (''pieces'', Some (STRING boundary_pieces))])) = Inr boundary_info"
  unfolding boundary_info_def boundary_pieces_def by code_simp

lemma Sprintf_x_boundary_pieces:
  "Sprintf_x (take 20 boundary_pieces) = ''81fe8bfe87576c3ecb22426f8e57847382917acf''"
  "Sprintf_x (drop 20 boundary_pieces) = ''2aed8aa9f826c21ef07d5ee15b48eea06e9c8a62''"
  "length boundary_pieces = 40"
  unfolding boundary_pieces_def by code_simp+

lemma pieces_loop_boundary_pieces:
  "pieces_loop boundary_pieces tail 0 =
     Inr [''81fe8bfe87576c3ecb22426f8e57847382917acf'',
          ''2aed8aa9f826c21ef07d5ee15b48eea06e9c8a62'']"
proof -
  note l = Sprintf_x_boundary_pieces(3)
  have a: "pieces_loop boundary_pieces tail 40 = Inr []"
    by (subst pieces_loop.simps) (simp add: l)
  have b: "pieces_loop boundary_pieces tail 20 = Inr [''2aed8aa9f826c21ef07d5ee15b48eea06e9c8a62'']"
    by (subst pieces_loop.simps) (simp add: l a andThen_def Sprintf_x_boundary_pieces(2))
  show ?thesis
    by (subst pieces_loop.simps) (simp add: l b andThen_def Sprintf_x_boundary_pieces(1))
qed

lemma TorrentFromBytes_boundary_metainfo:
  "TorrentFromBytes boundary_metainfo spare tail = Inr (Inr (Some boundary_torrent))"
  unfolding boundary_torrent_def
  by (simp add: TorrentFromBytes_def TorrentFromBencodeData_def andThen_def map_index_def
        announce_list_block_def announce_block_def string_field_def int_field_def
        url_list_block_def file_entry_def files_block_def pieces_block_def private_block_def
        info_hash_block_def AsBytes_def NewFile_def int64_def signed_divide_int_def
        signed_modulo_int_def Decode_boundary_metainfo Encode_boundary_info
        pieces_loop_boundary_pieces del: Encode.simps)

lemma windows_boundary:
  "windows 4 (logical_stream boundary_torrent boundary_files) = [''abcd'', ''efgh'']"
  by (simp add: logical_stream_def boundary_torrent_def boundary_files_def windows.simps)

lemma verify_boundary:
  "verify_files boundary_torrent boundary_files = Inr (Some (PieceCorrupted 0))"
  by (simp add: verify_files_def boundary_torrent_def boundary_files_def file_loop.simps
        carry_chunk_def piece_bytes_def Let_def sha1_hex_windows)

lemma verify_single:
  "verify_files single_torrent single_files = Inr None"
  by (simp add: verify_files_def single_torrent_def boundary_torrent_def single_files_def
        file_loop.simps carry_chunk_def piece_bytes_def Let_def sha1_hex_windows)

text \<open>
  Claim C5 fails in the code. The files \<^verbatim>\<open>abc\<close> and \<^verbatim>\<open>defgh\<close> make the stream
  \<^verbatim>\<open>abcdefgh\<close>, whose windows \<^verbatim>\<open>abcd\<close> and \<^verbatim>\<open>efgh\<close> have the two hashes of the
  metainfo, so the claim has the verifier succeed. The code keeps the three bytes of
  the first file in \<^verbatim>\<open>piece\<close>, then reads four bytes of the second file and sets
  \<^verbatim>\<open>piece = pieceBuf[:n]\<close>: the bytes kept are dropped, \<^verbatim>\<open>defg\<close> is hashed as piece
  0, and the verifier reports piece 0 as corrupted. The same eight bytes in a single
  file verify.
\<close>

theorem VerifyTorrent_piece_across_files:
  "TorrentFromBytes boundary_metainfo spare tail = Inr (Inr (Some boundary_torrent)) \<and>
   windows 4 (logical_stream boundary_torrent boundary_files) = [''abcd'', ''efgh''] \<and>
   map (Sprintf_x \<circ> sha1_Sum) [''abcd'', ''efgh''] = Pieces boundary_torrent \<and>
   VerifyTorrent (Some boundary_metainfo) spare tail boundary_files =
     Inr (Some (PieceCorrupted 0)) \<and>
   windows 4 (logical_stream single_torrent single_files) = [''abcd'', ''efgh''] \<and>
   verify_files single_torrent single_files = Inr None"
proof (intro conjI)
  show "TorrentFromBytes boundary_metainfo spare tail = Inr (Inr (Some boundary_torrent))"
    by (rule TorrentFromBytes_boundary_metainfo)
  show "windows 4 (logical_stream boundary_torrent boundary_files) = [''abcd'', ''efgh'']"
    by (rule windows_boundary)
  show "map (Sprintf_x \<circ> sha1_Sum) [''abcd'', ''efgh''] = Pieces boundary_torrent"
    by (simp add: sha1_hex_windows boundary_torrent_def)
  show "VerifyTorrent (Some boundary_metainfo) spare tail boundary_files =
          Inr (Some (PieceCorrupted 0))"
    by (simp add: VerifyTorrent_def TorrentFromBytes_boundary_metainfo andThen_def verify_boundary)
  show "windows 4 (logical_stream single_torrent single_files) = [''abcd'', ''efgh'']"
    by (simp add: logical_stream_def single_torrent_def boundary_torrent_def single_files_def
          windows.simps)
  show "verify_files single_torrent single_files = Inr None"
    by (rule verify_single)
qed

end
